theory Spec2Isabelle
  imports Main "HOL-Library.Char_ord" "HOL-Library.List_Lexorder" "HOL-Library.Multiset"
begin

section \<open>Data model of \<^verbatim>\<open>tach/interactive/packages.py\<close>\<close>

text \<open>
  The Python objects are mutable and refer to each other (a child holds its parent, a
  parent holds the list of its children, the session holds the selected node), so the
  nodes live in an explicit object store: a list of node records, the address of a node
  being its position. Creating a node appends it to the store; no node is ever freed.

  Strings are byte strings ordered lexicographically, which is the order Python gives
  \<^verbatim>\<open>str\<close> (code point order agrees with the byte order of UTF-8).
\<close>

type_synonym addr = nat

record FileNode =
  full_path :: string
  is_dir :: bool
  expanded :: bool
  is_package :: bool
  parent :: "addr option"
  children :: "addr list"

type_synonym heap = "FileNode list"

record FileTree =
  root :: addr
  nodes :: "string \<rightharpoonup> addr"

datatype SelectedPackage = SelectedPackage (sp_full_path: string)

datatype ExitCode = QUIT_NOSAVE | QUIT_SAVE

datatype os_error = PermissionError | FileNotFoundError | NotADirectoryError

datatype exn =
    TachError string
  | ValueError
  | OSError os_error
  | InvalidGitRepositoryError
  | NoSuchPathError
  | GitCommandError

text \<open>
  What a call does: it returns a value, raises an exception, or uses up its fuel. The
  fuel bounds the iterations of a \<^verbatim>\<open>while\<close> loop and the depth of a recursion; a
  call that runs out of it is one that the model does not see returning.
\<close>

datatype 'a outcome = Return 'a | Raise exn | Timeout

text \<open>
  The file system, and the two names of the package that are used by the module but
  defined elsewhere (\<^verbatim>\<open>fs.canonical\<close> and \<^verbatim>\<open>PACKAGE_FILE_NAME\<close>), are parameters.
  A file system says which paths are directories, which are regular files, and what each
  directory holds: \<open>listdir\<close> gives the entries of a directory, or \<open>None\<close> for a
  directory that may not be read. A file system does not change during a call; a later
  call may meet another file system.
\<close>

record env =
  isdir :: "string \<Rightarrow> bool"
  isfile :: "string \<Rightarrow> bool"
  listdir :: "string \<Rightarrow> string list option"
  canonical :: "string \<Rightarrow> string"
  PACKAGE_FILE_NAME :: string

text \<open>
  \<^verbatim>\<open>os.listdir\<close>: the entries of a directory, \<^verbatim>\<open>PermissionError\<close> for a directory
  that may not be read, \<^verbatim>\<open>NotADirectoryError\<close> for a regular file and
  \<^verbatim>\<open>FileNotFoundError\<close> for a path that is neither.
\<close>

definition os_listdir :: "env \<Rightarrow> string \<Rightarrow> os_error + string list" where
  "os_listdir e path =
     (if isdir e path then
        (case listdir e path of
           None \<Rightarrow> Inl PermissionError
         | Some entries \<Rightarrow> Inr entries)
      else if isfile e path then Inl NotADirectoryError
      else Inl FileNotFoundError)"

definition startswith :: "string \<Rightarrow> string \<Rightarrow> bool" where
  "startswith s p = (take (length p) s = p)"

definition endswith :: "string \<Rightarrow> string \<Rightarrow> bool" where
  "endswith s p = (length p \<le> length s \<and> drop (length s - length p) s = p)"

definition path_join :: "string \<Rightarrow> string \<Rightarrow> string" where
  \<comment> \<open>\<^verbatim>\<open>posixpath.join\<close> of two components\<close>
  "path_join a b =
     (if startswith b ''/'' then b
      else if a = [] \<or> endswith a ''/'' then a @ b
      else a @ ''/'' @ b)"

subsection \<open>FileNode\<close>

definition empty_node :: "FileNode \<Rightarrow> bool" where
  "empty_node n = (length (children n) = 0)"

definition visible_children :: "FileNode \<Rightarrow> addr list" where
  "visible_children n = (if \<not> expanded n then [] else children n)"

definition FileNode_build_from_path :: "env \<Rightarrow> string \<Rightarrow> FileNode" where
  "FileNode_build_from_path e path =
     \<lparr> full_path = path,
       is_dir = isdir e path,
       expanded = False,
       is_package = isfile e (path_join path (PACKAGE_FILE_NAME e @ ''.yml'')),
       parent = None,
       children = [] \<rparr>"

text \<open>
  \<^verbatim>\<open>sorted(xs, key=lambda node: node.full_path)\<close> is a stable sort; with
  \<^verbatim>\<open>reverse=True\<close> the order of the keys is reversed and elements with equal keys
  keep their original order, which is the reverse of the stable sort of the reversed list.
\<close>

definition sorted_by_path :: "heap \<Rightarrow> bool \<Rightarrow> addr list \<Rightarrow> addr list" where
  "sorted_by_path h reverse xs =
     (if reverse then rev (sort_key (\<lambda>a. full_path (h ! a)) (rev xs))
      else sort_key (\<lambda>a. full_path (h ! a)) xs)"

text \<open>
  \<^verbatim>\<open>FileNode\<close> is a dataclass, so \<^verbatim>\<open>==\<close> compares the fields in their order
  of declaration, stopping at the first pair that differs; two fields holding the same
  object are equal without a further call. The comparison of \<^verbatim>\<open>parent\<close> and of
  \<^verbatim>\<open>children\<close> calls \<^verbatim>\<open>==\<close> on nodes again, unless the two are the same
  object: the fuel bounds this nesting.
\<close>

fun list_all_eq :: "(addr \<Rightarrow> addr \<Rightarrow> bool outcome) \<Rightarrow> addr list \<Rightarrow> addr list \<Rightarrow> bool outcome" where
  "list_all_eq eq [] [] = Return True"
| "list_all_eq eq (x # xs) (y # ys) =
     (case eq x y of
        Return True \<Rightarrow> list_all_eq eq xs ys
      | other \<Rightarrow> other)"
| "list_all_eq eq _ _ = Return False"

fun node_eq :: "nat \<Rightarrow> heap \<Rightarrow> addr \<Rightarrow> addr \<Rightarrow> bool outcome" where
  "node_eq fuel h a b =
     (if a = b then Return True
      else if full_path (h ! a) \<noteq> full_path (h ! b) then Return False
      else if is_dir (h ! a) \<noteq> is_dir (h ! b) then Return False
      else if expanded (h ! a) \<noteq> expanded (h ! b) then Return False
      else if is_package (h ! a) \<noteq> is_package (h ! b) then Return False
      else
        (case
           (case (parent (h ! a), parent (h ! b)) of
              (None, None) \<Rightarrow> Return True
            | (Some p, Some q) \<Rightarrow>
                if p = q then Return True
                else if fuel = 0 then Timeout
                else node_eq (fuel - 1) h p q
            | _ \<Rightarrow> Return False)
         of
           Return True \<Rightarrow>
             (if length (children (h ! a)) \<noteq> length (children (h ! b)) then Return False
              else list_all_eq
                     (\<lambda>x y. if x = y then Return True
                            else if fuel = 0 then Timeout
                            else node_eq (fuel - 1) h x y)
                     (children (h ! a)) (children (h ! b)))
         | other \<Rightarrow> other))"

declare node_eq.simps [simp del]

text \<open>\<^verbatim>\<open>xs.index(x)\<close>: the position of the first element equal to \<open>x\<close>.\<close>

fun list_index :: "nat \<Rightarrow> heap \<Rightarrow> addr list \<Rightarrow> addr \<Rightarrow> nat outcome" where
  "list_index fuel h [] x = Raise ValueError"
| "list_index fuel h (y # ys) x =
     (case node_eq fuel h y x of
        Return True \<Rightarrow> Return 0
      | Return False \<Rightarrow>
          (case list_index fuel h ys x of
             Return i \<Rightarrow> Return (Suc i)
           | other \<Rightarrow> other)
      | Raise e \<Rightarrow> Raise e
      | Timeout \<Rightarrow> Timeout)"

definition parent_sorted_children :: "heap \<Rightarrow> addr \<Rightarrow> addr list option" where
  "parent_sorted_children h a =
     (case parent (h ! a) of
        None \<Rightarrow> None
      | Some p \<Rightarrow> Some (sorted_by_path h False (visible_children (h ! p))))"

definition navigation_error :: exn where
  "navigation_error = TachError ''Error occurred in interactive file tree navigation''"

definition prev_sibling :: "nat \<Rightarrow> heap \<Rightarrow> addr \<Rightarrow> addr option outcome" where
  "prev_sibling fuel h a =
     (case parent_sorted_children h a of
        None \<Rightarrow> Return None
      | Some psc \<Rightarrow>
          if psc = [] then Return None
          else
            (case list_index fuel h psc a of
               Raise ValueError \<Rightarrow> Raise navigation_error
             | Raise e \<Rightarrow> Raise e
             | Timeout \<Rightarrow> Timeout
             | Return my_index \<Rightarrow>
                 if my_index = 0 then Return None
                 else Return (Some (psc ! (my_index - 1)))))"

definition next_sibling :: "nat \<Rightarrow> heap \<Rightarrow> addr \<Rightarrow> addr option outcome" where
  "next_sibling fuel h a =
     (case parent_sorted_children h a of
        None \<Rightarrow> Return None
      | Some psc \<Rightarrow>
          if psc = [] then Return None
          else
            (case list_index fuel h psc a of
               Raise ValueError \<Rightarrow> Raise navigation_error
             | Raise e \<Rightarrow> Raise e
             | Timeout \<Rightarrow> Timeout
             | Return my_index \<Rightarrow>
                 if my_index = length psc - 1 then Return None
                 else Return (Some (psc ! (my_index + 1)))))"

subsection \<open>FileTree\<close>

text \<open>
  \<^verbatim>\<open>_build_subtree\<close> is a loop over the directory listing with a recursive call in its
  body. \<open>build_entries\<close> is the loop on the entries still to visit, \<open>build_subtree\<close> the
  method. Both give what the call does together with the store and the tree it leaves,
  since an exception may leave a tree that is partly built. The fuel bounds the depth of
  the recursion, which the source does not bound (the depth argument only decides the flag
  \<^verbatim>\<open>expanded\<close>). The \<^verbatim>\<open>try\<close> statement encloses the listing and the whole loop: a
  \<^verbatim>\<open>PermissionError\<close> that comes out of them ends the call normally, any other
  exception goes on to the caller.
\<close>

fun except_PermissionError :: "unit outcome \<times> 's \<Rightarrow> unit outcome \<times> 's" where
  "except_PermissionError (Raise (OSError PermissionError), w) = (Return (), w)"
| "except_PermissionError r = r"

definition attach :: "addr \<Rightarrow> string \<Rightarrow> FileNode \<Rightarrow> heap \<times> FileTree \<Rightarrow> heap \<times> FileTree" where
  \<comment> \<open>the new node is created, appended to the children of \<open>r\<close>, and indexed\<close>
  "attach r entry_path child_node w =
     (let h1 = fst w @ [child_node];
          h2 = h1 [r := (h1 ! r) \<lparr> children := children (h1 ! r) @ [length (fst w)] \<rparr>];
          t2 = (snd w) \<lparr> nodes := (nodes (snd w)) (entry_path \<mapsto> length (fst w)) \<rparr>
      in (h2, t2))"

fun build_entries :: "nat \<Rightarrow> env \<Rightarrow> addr \<Rightarrow> int \<Rightarrow> string list \<Rightarrow> heap \<times> FileTree \<Rightarrow> unit outcome \<times> (heap \<times> FileTree)"
and build_subtree :: "nat \<Rightarrow> env \<Rightarrow> addr \<Rightarrow> int \<Rightarrow> heap \<times> FileTree \<Rightarrow> unit outcome \<times> (heap \<times> FileTree)" where
  "build_entries fuel e r depth [] w = (Return (), w)"
| "build_entries fuel e r depth (entry # rest) w =
     (if startswith entry ''.'' then build_entries fuel e r depth rest w
      else if \<not> isdir e (path_join (full_path (fst w ! r)) entry)
      then build_entries fuel e r depth rest w
      else
        let entry_path = path_join (full_path (fst w ! r)) entry;
            child_node = (FileNode_build_from_path e entry_path)
                 \<lparr> expanded := (depth > 0), parent := Some r \<rparr>
        in
          if is_dir child_node then
            (case build_subtree fuel e (length (fst w)) (max (depth - 1) 0)
                    (attach r entry_path child_node w) of
               (Return u, w') \<Rightarrow> build_entries fuel e r depth rest w'
             | (Raise x, w') \<Rightarrow> (Raise x, w')
             | (Timeout, w') \<Rightarrow> (Timeout, w'))
          else build_entries fuel e r depth rest (attach r entry_path child_node w))"
| "build_subtree 0 e r depth w = (Timeout, w)"
| "build_subtree (Suc fuel) e r depth w =
     (if is_dir (fst w ! r) then
        except_PermissionError
          (case os_listdir e (full_path (fst w ! r)) of
             Inl x \<Rightarrow> (Raise (OSError x), w)
           | Inr entries \<Rightarrow> build_entries fuel e r depth entries w)
      else (Return (), w))"

text \<open>
  \<^verbatim>\<open>FileTree.build_from_path\<close> returns the tree; when the walk raises, the caller gets
  the exception and no tree.
\<close>

definition FileTree_build_from_path :: "nat \<Rightarrow> env \<Rightarrow> string \<Rightarrow> int \<Rightarrow> (heap \<times> FileTree) outcome" where
  "FileTree_build_from_path fuel e path depth =
     (let root_node = (FileNode_build_from_path e (canonical e path)) \<lparr> expanded := True \<rparr>;
          h = [root_node];
          t = \<lparr> root = 0, nodes = Map.empty \<rparr>;
          t1 = t \<lparr> nodes := (nodes t) (path \<mapsto> 0) \<rparr>
      in case build_subtree fuel e 0 depth (h, t1) of
           (Return u, w') \<Rightarrow> Return w'
         | (Raise x, w') \<Rightarrow> Raise x
         | (Timeout, w') \<Rightarrow> Timeout)"

definition not_found :: "string \<Rightarrow> exn" where
  "not_found path = TachError (''Directory '' @ path @ '' not found in tree.'')"

definition not_a_directory :: "string \<Rightarrow> exn" where
  "not_a_directory path =
     TachError (path @ '' does not seem to be a directory and cannot be expanded.'')"

text \<open>
  \<^verbatim>\<open>expand_path\<close> is called for its effect on the tree: like \<^verbatim>\<open>_build_subtree\<close>,
  the model gives what the call does together with the store and the tree it leaves.
\<close>

definition expand_path ::
  "nat \<Rightarrow> env \<Rightarrow> string \<Rightarrow> heap \<times> FileTree \<Rightarrow> unit outcome \<times> (heap \<times> FileTree)" where
  "expand_path fuel e path w =
     (case nodes (snd w) path of
        None \<Rightarrow> (Raise (not_found path), w)
      | Some node \<Rightarrow>
          if \<not> is_dir (fst w ! node) then (Raise (not_a_directory path), w)
          else build_subtree fuel e node 1 w)"

text \<open>
  \<^verbatim>\<open>file_tree_iterator\<close>: the deque is a list whose head is its left end;
  \<^verbatim>\<open>extendleft\<close> pushes the elements one by one on the left, so they end up in reverse
  order. The generator is run to its end and the nodes it yields are collected; the fuel
  bounds the number of nodes taken off the deque.
\<close>

definition extendleft :: "addr list \<Rightarrow> addr list \<Rightarrow> addr list" where
  "extendleft stack xs = rev xs @ stack"

fun iterator_loop :: "nat \<Rightarrow> heap \<Rightarrow> bool \<Rightarrow> addr list \<Rightarrow> addr list outcome" where
  "iterator_loop fuel h visible_only [] = Return []"
| "iterator_loop 0 h visible_only (node # stack) = Timeout"
| "iterator_loop (Suc fuel) h visible_only (node # stack) =
     (case iterator_loop fuel h visible_only
             (if visible_only
              then extendleft stack (sorted_by_path h True (visible_children (h ! node)))
              else extendleft stack (sorted_by_path h True (children (h ! node))))
      of Return ys \<Rightarrow> Return (node # ys)
       | other \<Rightarrow> other)"

definition file_tree_iterator :: "nat \<Rightarrow> heap \<Rightarrow> FileTree \<Rightarrow> bool \<Rightarrow> addr list outcome" where
  "file_tree_iterator fuel h tree visible_only = iterator_loop fuel h visible_only [root tree]"

subsection \<open>InteractivePackageTree\<close>

text \<open>
  The state of a session: the object store, and the fields of the session object that the
  key bindings read and write. Painting the screen is left out.
\<close>

record InteractivePackageTree =
  store :: heap
  exit_code :: ExitCode
  file_tree :: FileTree
  selected_node :: addr
  cursor_point :: "int \<times> int"

datatype key = Key_c_c | Key_c_s | Key_up | Key_down | Key_right | Key_left | Key_enter

definition InteractivePackageTree_init ::
  "nat \<Rightarrow> env \<Rightarrow> string \<Rightarrow> int \<Rightarrow> InteractivePackageTree outcome" where
  "InteractivePackageTree_init fuel e path depth =
     (case FileTree_build_from_path fuel e path depth of
        Return (h, t) \<Rightarrow>
          Return \<lparr> store = h, exit_code = QUIT_NOSAVE, file_tree = t,
                   selected_node = root t, cursor_point = (0, 1) \<rparr>
      | Raise x \<Rightarrow> Raise x
      | Timeout \<Rightarrow> Timeout)"

definition move_cursor_up :: "InteractivePackageTree \<Rightarrow> InteractivePackageTree" where
  "move_cursor_up s = s \<lparr> cursor_point := (fst (cursor_point s), snd (cursor_point s) - 1) \<rparr>"

definition move_cursor_down :: "InteractivePackageTree \<Rightarrow> InteractivePackageTree" where
  "move_cursor_down s = s \<lparr> cursor_point := (fst (cursor_point s), snd (cursor_point s) + 1) \<rparr>"

text \<open>The loop of \<^verbatim>\<open>up\<close>: from the previous sibling down to its last visible descendant.\<close>

fun bubble_down :: "nat \<Rightarrow> heap \<Rightarrow> addr \<Rightarrow> addr outcome" where
  "bubble_down 0 h curr_node =
     (if visible_children (h ! curr_node) = [] then Return curr_node else Timeout)"
| "bubble_down (Suc fuel) h curr_node =
     (if visible_children (h ! curr_node) = [] then Return curr_node
      else bubble_down fuel h
             (last (sorted_by_path h False (visible_children (h ! curr_node)))))"

definition up :: "nat \<Rightarrow> InteractivePackageTree \<Rightarrow> InteractivePackageTree outcome" where
  "up fuel s =
     (case prev_sibling fuel (store s) (selected_node s) of
        Return (Some prev) \<Rightarrow>
          (case bubble_down fuel (store s) prev of
             Return curr_node \<Rightarrow> Return (move_cursor_up (s \<lparr> selected_node := curr_node \<rparr>))
           | Raise x \<Rightarrow> Raise x
           | Timeout \<Rightarrow> Timeout)
      | Return None \<Rightarrow>
          (case parent (store s ! selected_node s) of
             Some p \<Rightarrow> Return (move_cursor_up (s \<lparr> selected_node := p \<rparr>))
           | None \<Rightarrow> Return s)
      | Raise x \<Rightarrow> Raise x
      | Timeout \<Rightarrow> Timeout)"

text \<open>
  The loop of \<^verbatim>\<open>down\<close>: its state is \<^verbatim>\<open>curr_node\<close> and \<^verbatim>\<open>next_sibling\<close>; it
  ends when a next sibling is found or the current node has no parent.
\<close>

fun bubble_up :: "nat \<Rightarrow> heap \<Rightarrow> addr \<Rightarrow> addr option \<Rightarrow> addr option outcome" where
  "bubble_up fuel h curr_node (Some nxt) = Return (Some nxt)"
| "bubble_up fuel h curr_node None =
     (case parent (h ! curr_node) of
        None \<Rightarrow> Return None
      | Some p \<Rightarrow>
          (case fuel of
             0 \<Rightarrow> Timeout
           | Suc fuel' \<Rightarrow>
               (case next_sibling (Suc fuel') h p of
                  Return nxt \<Rightarrow> bubble_up fuel' h p nxt
                | Raise x \<Rightarrow> Raise x
                | Timeout \<Rightarrow> Timeout)))"

definition down :: "nat \<Rightarrow> InteractivePackageTree \<Rightarrow> InteractivePackageTree outcome" where
  "down fuel s =
     (if visible_children (store s ! selected_node s) \<noteq> [] then
        Return (move_cursor_down
          (s \<lparr> selected_node :=
                 hd (sorted_by_path (store s) False (visible_children (store s ! selected_node s))) \<rparr>))
      else if parent (store s ! selected_node s) = None then Return s
      else
        (case next_sibling fuel (store s) (selected_node s) of
           Return nxt0 \<Rightarrow>
             (case bubble_up fuel (store s) (selected_node s) nxt0 of
                Return None \<Rightarrow> Return s
              | Return (Some nxt) \<Rightarrow> Return (move_cursor_down (s \<lparr> selected_node := nxt \<rparr>))
              | Raise x \<Rightarrow> Raise x
              | Timeout \<Rightarrow> Timeout)
         | Raise x \<Rightarrow> Raise x
         | Timeout \<Rightarrow> Timeout))"

definition set_selected :: "(FileNode \<Rightarrow> FileNode) \<Rightarrow> InteractivePackageTree \<Rightarrow> InteractivePackageTree" where
  \<comment> \<open>an assignment to a field of \<^verbatim>\<open>self.selected_node\<close>\<close>
  "set_selected f s = s \<lparr> store := (store s) [selected_node s := f (store s ! selected_node s)] \<rparr>"

fun key_binding :: "nat \<Rightarrow> key \<Rightarrow> InteractivePackageTree \<Rightarrow> InteractivePackageTree outcome" where
  "key_binding fuel Key_c_c s = Return (s \<lparr> exit_code := QUIT_NOSAVE \<rparr>)"
| "key_binding fuel Key_c_s s = Return (s \<lparr> exit_code := QUIT_SAVE \<rparr>)"
| "key_binding fuel Key_up s = up fuel s"
| "key_binding fuel Key_down s = down fuel s"
| "key_binding fuel Key_right s = Return (set_selected (\<lambda>n. n \<lparr> expanded := True \<rparr>) s)"
| "key_binding fuel Key_left s = Return (set_selected (\<lambda>n. n \<lparr> expanded := False \<rparr>) s)"
| "key_binding fuel Key_enter s = Return (set_selected (\<lambda>n. n \<lparr> is_package := \<not> is_package n \<rparr>) s)"

text \<open>A sequence of keys, each handled to completion before the next.\<close>

fun press :: "nat \<Rightarrow> key list \<Rightarrow> InteractivePackageTree \<Rightarrow> InteractivePackageTree outcome" where
  "press fuel [] s = Return s"
| "press fuel (k # ks) s =
     (case key_binding fuel k s of
        Return s' \<Rightarrow> press fuel ks s'
      | other \<Rightarrow> other)"

text \<open>
  \<^verbatim>\<open>self.app.run()\<close> handles the keys that arrive until a binding calls
  \<^verbatim>\<open>self.app.exit()\<close>; the keys after that one are not read. While no such key has
  arrived the application keeps waiting: on a key sequence with no exit key the call
  does not return.
\<close>

fun app_run :: "nat \<Rightarrow> key list \<Rightarrow> InteractivePackageTree \<Rightarrow> InteractivePackageTree outcome" where
  "app_run fuel [] s = Timeout"
| "app_run fuel (k # ks) s =
     (case key_binding fuel k s of
        Return s' \<Rightarrow> if k = Key_c_c \<or> k = Key_c_s then Return s' else app_run fuel ks s'
      | other \<Rightarrow> other)"

definition run :: "nat \<Rightarrow> key list \<Rightarrow> InteractivePackageTree \<Rightarrow> SelectedPackage list option outcome" where
  "run fuel keys s =
     (case app_run fuel keys s of
        Return s' \<Rightarrow>
          if exit_code s' = QUIT_SAVE then
            (case file_tree_iterator fuel (store s') (file_tree s') False of
               Return ns \<Rightarrow>
                 Return (Some (map (\<lambda>node. SelectedPackage (full_path (store s' ! node)))
                                 (filter (\<lambda>node. is_package (store s' ! node)) ns)))
             | Raise x \<Rightarrow> Raise x
             | Timeout \<Rightarrow> Timeout)
          else Return None
      | Raise x \<Rightarrow> Raise x
      | Timeout \<Rightarrow> Timeout)"

definition get_selected_packages_interactive ::
  "nat \<Rightarrow> env \<Rightarrow> key list \<Rightarrow> string \<Rightarrow> int \<Rightarrow> SelectedPackage list option outcome" where
  "get_selected_packages_interactive fuel e keys path depth =
     (case InteractivePackageTree_init fuel e path depth of
        Return ipt \<Rightarrow> run fuel keys ipt
      | Raise x \<Rightarrow> Raise x
      | Timeout \<Rightarrow> Timeout)"

section \<open>Data model of \<^verbatim>\<open>tach/filesystem/git_ops.py\<close>\<close>

text \<open>
  The three calls into GitPython are parameters: opening the repository and the two git
  commands, each of which returns its output or raises.
\<close>

datatype Path = Path string

record git =
  Repo :: "string \<Rightarrow> exn option"
  git_diff :: "string list \<Rightarrow> exn + string"
  git_ls_files :: "string list \<Rightarrow> exn + string"

definition line_boundary :: "char \<Rightarrow> bool" where
  "line_boundary c = (c \<in> set [CHR 0x0A, CHR 0x0D, CHR 0x0B, CHR 0x0C, CHR 0x1C, CHR 0x1D, CHR 0x1E])"

fun splitlines_from :: "string \<Rightarrow> string \<Rightarrow> string list" where
  "splitlines_from cur [] = (if cur = [] then [] else [cur])"
| "splitlines_from cur [c] = (if line_boundary c then [cur] else [cur @ [c]])"
| "splitlines_from cur (c # d # cs) =
     (if c = CHR 0x0D \<and> d = CHR 0x0A then cur # splitlines_from [] cs
      else if line_boundary c then cur # splitlines_from [] (d # cs)
      else splitlines_from (cur @ [c]) (d # cs))"

definition splitlines :: "string \<Rightarrow> string list" where
  \<comment> \<open>\<^verbatim>\<open>str.splitlines()\<close> on the line boundaries that are single bytes\<close>
  "splitlines s = splitlines_from [] s"

text \<open>
  \<^verbatim>\<open>list(map(Path, set(changed_files)))\<close>: Python does not fix the order in which a set
  is listed; the model lists it in the order of first occurrence, and the statements
  about the result only speak of its elements.
\<close>

definition get_changed_files :: "git \<Rightarrow> string \<Rightarrow> string \<Rightarrow> string \<Rightarrow> Path list outcome" where
  "get_changed_files g project_root head base =
     (case Repo g project_root of
        Some InvalidGitRepositoryError \<Rightarrow> Return []
      | Some NoSuchPathError \<Rightarrow> Return []
      | Some x \<Rightarrow> Raise x
      | None \<Rightarrow>
          (case (if head \<noteq> [] then git_diff g [''--name-only'', head, base]
                 else git_diff g [''--name-only'', base]) of
             Inl GitCommandError \<Rightarrow> Return []
           | Inl x \<Rightarrow> Raise x
           | Inr diff \<Rightarrow>
               let changed_files = splitlines diff in
               if head = [] then
                 (case git_ls_files g [''--others'', ''--exclude-standard''] of
                    Inl x \<Rightarrow> Raise x
                  | Inr untracked_files \<Rightarrow>
                      Return (map Path (remdups (changed_files @ splitlines untracked_files))))
               else Return (map Path (remdups changed_files))))"

section \<open>A small project, for evaluating the definitions\<close>

text \<open>
  The directory \<^verbatim>\<open>/r\<close> holds the directories \<^verbatim>\<open>b\<close> (which cannot be listed),
  \<^verbatim>\<open>.git\<close> and \<^verbatim>\<open>a\<close> and the file \<^verbatim>\<open>f.txt\<close>; \<^verbatim>\<open>/r/a\<close> is a declared package
  and holds \<^verbatim>\<open>c\<close>, which holds \<^verbatim>\<open>d\<close>. The working directory is \<^verbatim>\<open>/r\<close>.
\<close>

definition ex_env :: env where
  "ex_env =
     \<lparr> isdir = (\<lambda>p. p \<in> set [''/r'', ''/r/a'', ''/r/b'', ''/r/.git'', ''/r/a/c'', ''/r/a/c/d'']),
       isfile = (\<lambda>p. p \<in> set [''/r/f.txt'', ''/r/a/package.yml'']),
       listdir = (\<lambda>p. if p = ''/r'' then Some [''b'', ''.git'', ''a'', ''f.txt'']
                       else if p = ''/r/a'' then Some [''package.yml'', ''c'']
                       else if p = ''/r/a/c'' then Some [''d'']
                       else if p = ''/r/b'' then None
                       else Some []),
       canonical = (\<lambda>p. if p = ''.'' then ''/r'' else p),
       PACKAGE_FILE_NAME = ''package'' \<rparr>"

text \<open>The store that \<^verbatim>\<open>FileTree.build_from_path("/r", depth=1)\<close> leaves.\<close>

definition ex_heap :: heap where
  "ex_heap =
     [ \<lparr> full_path = ''/r'', is_dir = True, expanded = True, is_package = False,
         parent = None, children = [1, 2] \<rparr>,
       \<lparr> full_path = ''/r/b'', is_dir = True, expanded = True, is_package = False,
         parent = Some 0, children = [] \<rparr>,
       \<lparr> full_path = ''/r/a'', is_dir = True, expanded = True, is_package = True,
         parent = Some 0, children = [3] \<rparr>,
       \<lparr> full_path = ''/r/a/c'', is_dir = True, expanded = False, is_package = False,
         parent = Some 2, children = [4] \<rparr>,
       \<lparr> full_path = ''/r/a/c/d'', is_dir = True, expanded = False, is_package = False,
         parent = Some 3, children = [] \<rparr> ]"

text \<open>A repository in which \<^verbatim>\<open>git diff\<close> works and \<^verbatim>\<open>git ls-files\<close> fails.\<close>

definition ex_git :: git where
  "ex_git =
     \<lparr> Repo = (\<lambda>p. None),
       git_diff = (\<lambda>args. Inr ''a.py''),
       git_ls_files = (\<lambda>args. Inl GitCommandError) \<rparr>"

text \<open>The index that goes with the example store, and a rank for the example project.\<close>

definition ex_tree :: FileTree where
  "ex_tree =
     \<lparr> root = 0,
       nodes = [''/r'' \<mapsto> 0, ''/r/b'' \<mapsto> 1, ''/r/a'' \<mapsto> 2, ''/r/a/c'' \<mapsto> 3,
                ''/r/a/c/d'' \<mapsto> 4] \<rparr>"

definition ex_rank :: "string \<Rightarrow> nat" where
  "ex_rank p = 20 - length p"

text \<open>
  The example project after \<^verbatim>\<open>/r/b\<close> has become readable: it holds \<^verbatim>\<open>x\<close>, which
  holds \<^verbatim>\<open>y\<close>.
\<close>

definition ex_env2 :: env where
  "ex_env2 =
     ex_env \<lparr> isdir := (\<lambda>p. p \<in> set [''/r/b/x'', ''/r/b/x/y''] \<or> isdir ex_env p),
              listdir := (\<lambda>p. if p = ''/r/b'' then Some [''x'']
                              else if p = ''/r/b/x'' then Some [''y'']
                              else listdir ex_env p) \<rparr>"

text \<open>The example project after the directory \<^verbatim>\<open>/r/b\<close> has been removed.\<close>

definition ex_env3 :: env where
  "ex_env3 =
     ex_env \<lparr> isdir := (\<lambda>p. p \<noteq> ''/r/b'' \<and> isdir ex_env p),
              listdir := (\<lambda>p. if p = ''/r'' then Some [''.git'', ''a'', ''f.txt'']
                              else listdir ex_env p) \<rparr>"

text \<open>
  The store that \<^verbatim>\<open>expand_path("/r/a")\<close> leaves when it is called on the example
  store: the node \<^verbatim>\<open>/r/a\<close> had a child already, and has now a second one with the
  same path.
\<close>

definition ex_heap_again :: heap where
  "ex_heap_again =
     [ \<lparr> full_path = ''/r'', is_dir = True, expanded = True, is_package = False,
         parent = None, children = [1, 2] \<rparr>,
       \<lparr> full_path = ''/r/b'', is_dir = True, expanded = True, is_package = False,
         parent = Some 0, children = [] \<rparr>,
       \<lparr> full_path = ''/r/a'', is_dir = True, expanded = True, is_package = True,
         parent = Some 0, children = [3, 5] \<rparr>,
       \<lparr> full_path = ''/r/a/c'', is_dir = True, expanded = False, is_package = False,
         parent = Some 2, children = [4] \<rparr>,
       \<lparr> full_path = ''/r/a/c/d'', is_dir = True, expanded = False, is_package = False,
         parent = Some 3, children = [] \<rparr>,
       \<lparr> full_path = ''/r/a/c'', is_dir = True, expanded = True, is_package = False,
         parent = Some 2, children = [6] \<rparr>,
       \<lparr> full_path = ''/r/a/c/d'', is_dir = True, expanded = False, is_package = False,
         parent = Some 5, children = [] \<rparr> ]"

text \<open>
  The store that two calls of \<^verbatim>\<open>expand_path("/r/b")\<close> leave when they are called on
  the example store after \<^verbatim>\<open>/r/b\<close> has become readable.
\<close>

definition ex_heap_twice :: heap where
  "ex_heap_twice =
     [ \<lparr> full_path = ''/r'', is_dir = True, expanded = True, is_package = False,
         parent = None, children = [1, 2] \<rparr>,
       \<lparr> full_path = ''/r/b'', is_dir = True, expanded = True, is_package = False,
         parent = Some 0, children = [5, 7] \<rparr>,
       \<lparr> full_path = ''/r/a'', is_dir = True, expanded = True, is_package = True,
         parent = Some 0, children = [3] \<rparr>,
       \<lparr> full_path = ''/r/a/c'', is_dir = True, expanded = False, is_package = False,
         parent = Some 2, children = [4] \<rparr>,
       \<lparr> full_path = ''/r/a/c/d'', is_dir = True, expanded = False, is_package = False,
         parent = Some 3, children = [] \<rparr>,
       \<lparr> full_path = ''/r/b/x'', is_dir = True, expanded = True, is_package = False,
         parent = Some 1, children = [6] \<rparr>,
       \<lparr> full_path = ''/r/b/x/y'', is_dir = True, expanded = False, is_package = False,
         parent = Some 5, children = [] \<rparr>,
       \<lparr> full_path = ''/r/b/x'', is_dir = True, expanded = True, is_package = False,
         parent = Some 1, children = [8] \<rparr>,
       \<lparr> full_path = ''/r/b/x/y'', is_dir = True, expanded = False, is_package = False,
         parent = Some 7, children = [] \<rparr> ]"

text \<open>A session on the example store, with the node \<^verbatim>\<open>/r/a/c\<close> selected.\<close>

definition ex_session :: InteractivePackageTree where
  "ex_session =
     \<lparr> store = ex_heap, exit_code = QUIT_NOSAVE, file_tree = ex_tree,
       selected_node = 3, cursor_point = (0, 3) \<rparr>"

section \<open>Invariants of the store\<close>

text \<open>
  The links between nodes: a node with a parent stands in the children of that parent,
  which was created before it; the children of a node are nodes of the store whose parent
  it is. A store is well formed when the links are right and no two children of a node
  share a path.
\<close>

definition child_paths :: "heap \<Rightarrow> addr \<Rightarrow> string list" where
  "child_paths h a = map (\<lambda>c. full_path (h ! c)) (children (h ! a))"

definition links_ok :: "heap \<Rightarrow> addr \<Rightarrow> bool" where
  "links_ok h a =
     ((case parent (h ! a) of
         None \<Rightarrow> True
       | Some p \<Rightarrow> p < a \<and> a \<in> set (children (h ! p))) \<and>
      (\<forall>c \<in> set (children (h ! a)). c < length h \<and> parent (h ! c) = Some a))"

definition wf_links :: "heap \<Rightarrow> bool" where
  "wf_links h = (\<forall>a \<in> set [0..<length h]. links_ok h a)"

definition wf_heap :: "heap \<Rightarrow> bool" where
  "wf_heap h = (wf_links h \<and> (\<forall>a \<in> set [0..<length h]. distinct (child_paths h a)))"

text \<open>
  What a call of \<^verbatim>\<open>_build_subtree\<close> on the node \<open>r\<close> may change: it adds nodes at the
  end of the store and appends some of them to the children of \<open>r\<close>.
\<close>

definition grows :: "addr \<Rightarrow> heap \<Rightarrow> heap \<Rightarrow> bool" where
  "grows r h h' =
     (length h \<le> length h' \<and>
      (\<forall>a < length h. a \<noteq> r \<longrightarrow> h' ! a = h ! a) \<and>
      (\<exists>cs. h' ! r = (h ! r) \<lparr> children := children (h ! r) @ cs \<rparr> \<and>
            (\<forall>c \<in> set cs. length h \<le> c \<and> c < length h')))"

text \<open>The node that the loop creates for an entry, and the entries that it passes over.\<close>

definition new_child :: "env \<Rightarrow> addr \<Rightarrow> int \<Rightarrow> string \<Rightarrow> FileNode" where
  "new_child e r d p = (FileNode_build_from_path e p) \<lparr> expanded := (d > 0), parent := Some r \<rparr>"

definition skipped :: "env \<Rightarrow> string \<Rightarrow> string \<Rightarrow> bool" where
  "skipped e p entry = (startswith entry ''.'' \<or> \<not> isdir e (path_join p entry))"

definition listed_dirs :: "env \<Rightarrow> string \<Rightarrow> string list" where
  "listed_dirs e p =
     (case listdir e p of
        None \<Rightarrow> []
      | Some es \<Rightarrow> map (path_join p) (filter (\<lambda>x. \<not> skipped e p x) es))"

text \<open>
  The directories below a path form a finite tree when some rank decreases from each
  listed directory to the directories listed in it; listings name each entry once, and
  an entry is a name, not a path.
\<close>

definition ranked :: "env \<Rightarrow> (string \<Rightarrow> nat) \<Rightarrow> bool" where
  "ranked e rank = (\<forall>p. \<forall>q \<in> set (listed_dirs e p). rank q < rank p)"

definition listing_ok :: "env \<Rightarrow> bool" where
  "listing_ok e =
     (\<forall>p es. listdir e p = Some es \<longrightarrow> distinct es \<and> (\<forall>x \<in> set es. \<not> startswith x ''/''))"

text \<open>The level of a node: the number of its ancestors.\<close>

inductive at_level :: "heap \<Rightarrow> addr \<Rightarrow> nat \<Rightarrow> bool" for h where
  top: "parent (h ! a) = None \<Longrightarrow> at_level h a 0"
| below: "parent (h ! a) = Some p \<Longrightarrow> at_level h p k \<Longrightarrow> at_level h a (Suc k)"

text \<open>
  A node whose children are nodes of the store, and a directory node whose children are
  the directories that the loop keeps from the listing of its path.
\<close>

definition bounded :: "heap \<Rightarrow> addr \<Rightarrow> bool" where
  "bounded h a = (\<forall>c \<in> set (children (h ! a)). c < length h)"

definition filled :: "env \<Rightarrow> heap \<Rightarrow> addr \<Rightarrow> bool" where
  "filled e h a =
     (bounded h a \<and> is_dir (h ! a) \<and> child_paths h a = listed_dirs e (full_path (h ! a)))"

section \<open>Invariants of a session\<close>

text \<open>
  The strict ancestors of a node, and the nodes all of whose strict ancestors are expanded
  (the visible nodes of the specification).
\<close>

inductive ancestor :: "heap \<Rightarrow> addr \<Rightarrow> addr \<Rightarrow> bool" for h where
  parent: "parent (h ! a) = Some p \<Longrightarrow> ancestor h p a"
| above: "parent (h ! a) = Some q \<Longrightarrow> ancestor h p q \<Longrightarrow> ancestor h p a"

definition shown :: "heap \<Rightarrow> addr \<Rightarrow> bool" where
  "shown h a = (\<forall>p. ancestor h p a \<longrightarrow> expanded (h ! p))"

definition session_ok :: "InteractivePackageTree \<Rightarrow> bool" where
  "session_ok s =
     (wf_heap (store s) \<and> selected_node s < length (store s) \<and>
      shown (store s) (selected_node s))"

text \<open>
  \<open>last_below h c a\<close>: going from \<open>c\<close> to the last shown child, again and again, ends at
  \<open>a\<close>, a node that shows no children.
\<close>

inductive last_below :: "heap \<Rightarrow> addr \<Rightarrow> addr \<Rightarrow> bool" for h where
  here: "visible_children (h ! a) = [] \<Longrightarrow> last_below h a a"
| down: "visible_children (h ! c) \<noteq> [] \<Longrightarrow>
         last_below h (last (sorted_by_path h False (visible_children (h ! c)))) a \<Longrightarrow>
         last_below h c a"

text \<open>
  The boundary case of \<^verbatim>\<open>down\<close>: the selected node shows no children, and neither it
  nor any of its ancestors has a next sibling.
\<close>

definition at_bottom :: "nat \<Rightarrow> heap \<Rightarrow> addr \<Rightarrow> bool" where
  "at_bottom fuel h a =
     (visible_children (h ! a) = [] \<and>
      (\<forall>c. c = a \<or> ancestor h c a \<longrightarrow> next_sibling fuel h c = Return None))"

section \<open>Pre-order traversal, as the specification words it\<close>

text \<open>
  The children that a traversal follows from a node (all of them, or the visible ones),
  in ascending order of path; and the pre-order traversal from a node: the node, then
  the traversals from these children, one after the other.
\<close>

definition kids :: "heap \<Rightarrow> bool \<Rightarrow> addr \<Rightarrow> addr list" where
  "kids h visible_only a = (if visible_only then visible_children (h ! a) else children (h ! a))"

definition ascending_kids :: "heap \<Rightarrow> bool \<Rightarrow> addr \<Rightarrow> addr list" where
  "ascending_kids h visible_only a = sort_key (\<lambda>c. full_path (h ! c)) (kids h visible_only a)"

inductive preorder :: "heap \<Rightarrow> bool \<Rightarrow> addr \<Rightarrow> addr list \<Rightarrow> bool" for h v where
  node: "list_all2 (preorder h v) (ascending_kids h v a) xss \<Longrightarrow> preorder h v a (a # concat xss)"

section \<open>Properties\<close>

subsection \<open>Comparison of nodes and position in a list\<close>

lemma list_all_eq_no_raise:
  "(\<And>x y. eq x y \<noteq> Raise e) \<Longrightarrow> list_all_eq eq xs ys \<noteq> Raise e"
  by (induction eq xs ys rule: list_all_eq.induct) (auto split: outcome.splits bool.splits)

lemma node_eq_no_raise: "node_eq fuel h a b \<noteq> Raise e"
proof (induction fuel arbitrary: a b)
  case 0
  have par: "(case (parent (h ! a), parent (h ! b)) of
                (None, None) \<Rightarrow> Return True
              | (Some p, Some q) \<Rightarrow>
                  if p = q then Return True
                  else if (0::nat) = 0 then Timeout
                  else node_eq (0 - 1) h p q
              | _ \<Rightarrow> Return False) \<noteq> Raise e"
    by (simp split: option.splits)
  have kids: "list_all_eq
                (\<lambda>x y. if x = y then Return True
                       else if (0::nat) = 0 then Timeout
                       else node_eq (0 - 1) h x y) xs ys \<noteq> Raise e" for xs ys
    by (rule list_all_eq_no_raise) simp
  show ?case
    by (subst node_eq.simps) (use par kids in \<open>auto split: outcome.splits bool.splits\<close>)
next
  case (Suc n)
  have par: "(case (parent (h ! a), parent (h ! b)) of
                (None, None) \<Rightarrow> Return True
              | (Some p, Some q) \<Rightarrow>
                  if p = q then Return True
                  else if Suc n = 0 then Timeout
                  else node_eq (Suc n - 1) h p q
              | _ \<Rightarrow> Return False) \<noteq> Raise e"
    by (simp add: Suc split: option.splits)
  have kids: "list_all_eq
                (\<lambda>x y. if x = y then Return True
                       else if Suc n = 0 then Timeout
                       else node_eq (Suc n - 1) h x y) xs ys \<noteq> Raise e" for xs ys
    by (rule list_all_eq_no_raise) (simp add: Suc)
  show ?case
    by (subst node_eq.simps) (use par kids in \<open>auto split: outcome.splits bool.splits\<close>)
qed

lemma node_eq_same: "node_eq fuel h a a = Return True"
  by (simp add: node_eq.simps)

lemma node_eq_other_path:
  "full_path (h ! a) \<noteq> full_path (h ! b) \<Longrightarrow> node_eq fuel h a b = Return False"
  by (auto simp: node_eq.simps)

lemma list_index_member: "x \<in> set ys \<Longrightarrow> list_index fuel h ys x \<noteq> Raise e"
proof (induction ys)
  case Nil
  then show ?case by simp
next
  case (Cons y ys)
  show ?case
  proof (cases "y = x")
    case True
    then show ?thesis by (simp add: node_eq_same)
  next
    case False
    with Cons have "list_index fuel h ys x \<noteq> Raise e" by simp
    then show ?thesis
      using node_eq_no_raise [of fuel h y x]
      by (auto split: outcome.splits bool.splits)
  qed
qed

lemma list_index_distinct:
  "distinct (map (\<lambda>c. full_path (h ! c)) ys) \<Longrightarrow> i < length ys \<Longrightarrow>
   list_index fuel h ys (ys ! i) = Return i"
proof (induction ys arbitrary: i)
  case Nil
  then show ?case by simp
next
  case (Cons y ys)
  show ?case
  proof (cases i)
    case 0
    then show ?thesis by (simp add: node_eq_same)
  next
    case (Suc j)
    with Cons.prems have j: "j < length ys" by simp
    then have "ys ! j \<in> set ys" by simp
    with Cons.prems have "full_path (h ! y) \<noteq> full_path (h ! (ys ! j))" by auto
    then have "node_eq fuel h y (ys ! j) = Return False" by (rule node_eq_other_path)
    moreover from Cons j have "list_index fuel h ys (ys ! j) = Return j" by simp
    ultimately show ?thesis using Suc by simp
  qed
qed

lemma set_sorted_by_path [simp]: "set (sorted_by_path h b xs) = set xs"
  by (simp add: sorted_by_path_def)

lemma length_sorted_by_path [simp]: "length (sorted_by_path h b xs) = length xs"
  by (simp add: sorted_by_path_def)

lemma distinct_paths_sorted:
  "distinct (map (\<lambda>c. full_path (h ! c)) (sorted_by_path h False xs)) =
   distinct (map (\<lambda>c. full_path (h ! c)) xs)"
proof -
  have "mset (map (\<lambda>c. full_path (h ! c)) (sorted_by_path h False xs)) =
        mset (map (\<lambda>c. full_path (h ! c)) xs)"
    by (simp add: sorted_by_path_def)
  then show ?thesis by (metis distinct_count_atmost_1 set_mset_mset)
qed

subsection \<open>Sibling lookup\<close>

text \<open>
  Claim C9, as the code has it. A node that has a parent and stands in the list of
  children of that parent never reaches the error branch of \<^verbatim>\<open>prev_sibling\<close> or
  \<^verbatim>\<open>next_sibling\<close>: when the parent shows children at all, \<^verbatim>\<open>index(self)\<close> on the
  sorted list does not raise \<^verbatim>\<open>ValueError\<close>. That the node is located needs more than
  the claim assumes: when no two children of the parent share a path, \<^verbatim>\<open>index(self)\<close>
  returns the position at which the node itself stands, and both lookups return, the
  sibling before or after that position, or \<^verbatim>\<open>None\<close> at the ends.
\<close>

theorem sibling_lookup_succeeds:
  assumes "parent (h ! a) = Some p" and "a \<in> set (children (h ! p))"
  shows "prev_sibling fuel h a \<noteq> Raise navigation_error \<and>
         next_sibling fuel h a \<noteq> Raise navigation_error \<and>
         (visible_children (h ! p) \<noteq> [] \<longrightarrow>
            list_index fuel h (sorted_by_path h False (visible_children (h ! p))) a
              \<noteq> Raise ValueError) \<and>
         (visible_children (h ! p) \<noteq> [] \<and>
          distinct (map (\<lambda>c. full_path (h ! c)) (children (h ! p))) \<longrightarrow>
            (\<exists>i < length (children (h ! p)).
               list_index fuel h (sorted_by_path h False (visible_children (h ! p))) a = Return i \<and>
               sorted_by_path h False (visible_children (h ! p)) ! i = a \<and>
               prev_sibling fuel h a =
                 Return (if i = 0 then None
                         else Some (sorted_by_path h False (visible_children (h ! p)) ! (i - 1))) \<and>
               next_sibling fuel h a =
                 Return (if i = length (children (h ! p)) - 1 then None
                         else Some (sorted_by_path h False (visible_children (h ! p)) ! (i + 1)))))"
proof -
  let ?psc = "sorted_by_path h False (visible_children (h ! p))"
  have psc: "parent_sorted_children h a = Some ?psc"
    using assms(1) by (simp add: parent_sorted_children_def)
  have mem: "visible_children (h ! p) \<noteq> [] \<Longrightarrow> a \<in> set ?psc"
    using assms(2) by (auto simp: visible_children_def split: if_splits)
  have idx: "visible_children (h ! p) \<noteq> [] \<Longrightarrow> list_index fuel h ?psc a \<noteq> Raise x" for x
    using mem by (rule list_index_member)
  have nonempty: "?psc = [] \<longleftrightarrow> visible_children (h ! p) = []"
    by (metis length_0_conv length_sorted_by_path)
  have 1: "prev_sibling fuel h a \<noteq> Raise navigation_error"
    using idx by (auto simp: prev_sibling_def psc nonempty split: outcome.splits exn.splits)
  have 2: "next_sibling fuel h a \<noteq> Raise navigation_error"
    using idx by (auto simp: next_sibling_def psc nonempty split: outcome.splits exn.splits)
  have 4: "\<exists>i < length (children (h ! p)). list_index fuel h ?psc a = Return i \<and> ?psc ! i = a \<and>
             prev_sibling fuel h a = Return (if i = 0 then None else Some (?psc ! (i - 1))) \<and>
             next_sibling fuel h a =
               Return (if i = length (children (h ! p)) - 1 then None else Some (?psc ! (i + 1)))"
    if ne: "visible_children (h ! p) \<noteq> []"
      and d: "distinct (map (\<lambda>c. full_path (h ! c)) (children (h ! p)))"
  proof -
    from ne have vc: "visible_children (h ! p) = children (h ! p)"
      by (auto simp: visible_children_def split: if_splits)
    from mem [OF ne] obtain i where i: "i < length ?psc" "?psc ! i = a"
      unfolding in_set_conv_nth by blast
    from d have "distinct (map (\<lambda>c. full_path (h ! c)) ?psc)"
      by (simp add: distinct_paths_sorted vc)
    from list_index_distinct [OF this i(1)] i(2)
    have li: "list_index fuel h ?psc a = Return i" by simp
    have len: "length ?psc = length (children (h ! p))" by (simp add: vc)
    from ne nonempty have pne: "?psc \<noteq> []" by simp
    have p: "prev_sibling fuel h a = Return (if i = 0 then None else Some (?psc ! (i - 1)))"
      using li pne by (simp add: prev_sibling_def psc)
    have n: "next_sibling fuel h a =
        Return (if i = length (children (h ! p)) - 1 then None else Some (?psc ! (i + 1)))"
      using li pne len by (simp add: next_sibling_def psc)
    from i li len p n show ?thesis by auto
  qed
  from 1 2 idx 4 show ?thesis by blast
qed

theorem sibling_lookup_succeeds_witness:
  "parent (ex_heap ! 2) = Some 0 \<and> 2 \<in> set (children (ex_heap ! 0)) \<and>
   visible_children (ex_heap ! 0) \<noteq> [] \<and>
   distinct (map (\<lambda>c. full_path (ex_heap ! c)) (children (ex_heap ! 0))) \<and>
   prev_sibling 1 ex_heap 2 \<noteq> Raise navigation_error \<and>
   next_sibling 1 ex_heap 2 \<noteq> Raise navigation_error \<and>
   list_index 1 ex_heap (sorted_by_path ex_heap False (visible_children (ex_heap ! 0))) 2
     \<noteq> Raise ValueError \<and>
   (\<exists>i < length (children (ex_heap ! 0)).
      list_index 1 ex_heap (sorted_by_path ex_heap False (visible_children (ex_heap ! 0))) 2
        = Return i \<and>
      sorted_by_path ex_heap False (visible_children (ex_heap ! 0)) ! i = 2)"
proof -
  have h1: "parent (ex_heap ! 2) = Some 0" by (simp add: ex_heap_def)
  have h2: "2 \<in> set (children (ex_heap ! 0))" by (simp add: ex_heap_def)
  have h3: "visible_children (ex_heap ! 0) \<noteq> []" by (simp add: ex_heap_def visible_children_def)
  have h4: "distinct (map (\<lambda>c. full_path (ex_heap ! c)) (children (ex_heap ! 0)))"
    by (simp add: ex_heap_def)
  from sibling_lookup_succeeds [OF h1 h2, of 1] h1 h2 h3 h4 show ?thesis by blast
qed

lemma never_equal:
  "node_eq fuel ex_heap_twice 5 7 = Timeout \<and> node_eq fuel ex_heap_twice 6 8 = Timeout"
proof (induction fuel)
  case 0
  show ?case by (simp add: node_eq.simps ex_heap_twice_def)
next
  case (Suc n)
  then show ?case by (simp add: node_eq.simps [of "Suc n"] ex_heap_twice_def)
qed

text \<open>
  Claim C9, as stated, fails. The claim says that locating the node among the sorted
  visible children of its parent always succeeds. After two calls of
  \<^verbatim>\<open>expand_path("/r/b")\<close> the node \<^verbatim>\<open>/r/b\<close> (address 1) has two children with the
  same path, 5 and 7, each with one child, 6 and 8, again with the same path. Node 7 has
  node 1 as its parent and stands in the children of node 1, which are shown. For node 7,
  \<^verbatim>\<open>index(self)\<close> compares node 5 with node 7: they agree on every field before
  \<^verbatim>\<open>children\<close>, the comparison of the children compares node 6 with node 8, and the
  comparison of their parents compares node 5 with node 7 again. The comparison never
  returns, whatever the fuel (in Python it ends with \<^verbatim>\<open>RecursionError\<close>, which
  \<^verbatim>\<open>except ValueError\<close> does not catch), and neither lookup returns.
\<close>

theorem sibling_lookup_never_returns:
  "fst (expand_path 30 ex_env2 ''/r/b'' (ex_heap, ex_tree)) = Return () \<and>
   fst (expand_path 30 ex_env2 ''/r/b'' (snd (expand_path 30 ex_env2 ''/r/b'' (ex_heap, ex_tree))))
     = Return () \<and>
   fst (snd (expand_path 30 ex_env2 ''/r/b''
               (snd (expand_path 30 ex_env2 ''/r/b'' (ex_heap, ex_tree))))) = ex_heap_twice \<and>
   parent (ex_heap_twice ! 7) = Some 1 \<and> 7 \<in> set (children (ex_heap_twice ! 1)) \<and>
   visible_children (ex_heap_twice ! 1) = [5, 7] \<and>
   sorted_by_path ex_heap_twice False (visible_children (ex_heap_twice ! 1)) = [5, 7] \<and>
   (\<forall>fuel. list_index fuel ex_heap_twice
              (sorted_by_path ex_heap_twice False (visible_children (ex_heap_twice ! 1))) 7
              = Timeout \<and>
           prev_sibling fuel ex_heap_twice 7 = Timeout \<and>
           next_sibling fuel ex_heap_twice 7 = Timeout)"
proof -
  have built: "fst (expand_path 30 ex_env2 ''/r/b'' (ex_heap, ex_tree)) = Return () \<and>
     fst (expand_path 30 ex_env2 ''/r/b'' (snd (expand_path 30 ex_env2 ''/r/b'' (ex_heap, ex_tree))))
       = Return () \<and>
     fst (snd (expand_path 30 ex_env2 ''/r/b''
               (snd (expand_path 30 ex_env2 ''/r/b'' (ex_heap, ex_tree))))) = ex_heap_twice"
    by code_simp
  have par: "parent (ex_heap_twice ! 7) = Some 1" by (simp add: ex_heap_twice_def)
  have mem: "7 \<in> set (children (ex_heap_twice ! 1))" by (simp add: ex_heap_twice_def)
  have vis: "visible_children (ex_heap_twice ! 1) = [5, 7]"
    by (simp add: ex_heap_twice_def visible_children_def)
  have psc: "sorted_by_path ex_heap_twice False (visible_children (ex_heap_twice ! 1)) = [5, 7]"
    unfolding vis by (simp add: sorted_by_path_def ex_heap_twice_def)
  have idx: "list_index fuel ex_heap_twice [5, 7] 7 = Timeout" for fuel
    using never_equal [of fuel] by simp
  have prev: "prev_sibling fuel ex_heap_twice 7 = Timeout" for fuel
    using idx [of fuel] psc par by (simp add: prev_sibling_def parent_sorted_children_def)
  have nxt: "next_sibling fuel ex_heap_twice 7 = Timeout" for fuel
    using idx [of fuel] psc par by (simp add: next_sibling_def parent_sorted_children_def)
  from built par mem vis psc idx prev nxt show ?thesis by simp
qed

subsection \<open>The index of paths\<close>

lemma ex_tree_built:
  "(case FileTree_build_from_path 10 ex_env ''/r'' 1 of
      Return (h, t) \<Rightarrow>
        map (nodes t) [''/r'', ''/r/b'', ''/r/a'', ''/r/a/c'', ''/r/a/c/d'', ''/r/.git''] =
        map (nodes ex_tree) [''/r'', ''/r/b'', ''/r/a'', ''/r/a/c'', ''/r/a/c/d'', ''/r/.git'']
    | _ \<Rightarrow> False)"
  by code_simp

lemma ex_heap_built:
  "(case FileTree_build_from_path 10 ex_env ''/r'' 1 of
      Return (h, t) \<Rightarrow> h = ex_heap \<and> root t = 0
    | _ \<Rightarrow> False)"
  by code_simp

text \<open>
  Claim C8. The claim asks that every node be indexed under its own \<^verbatim>\<open>full_path\<close>.
  \<^verbatim>\<open>_build_subtree\<close> does so for the nodes it creates, but \<^verbatim>\<open>build_from_path\<close>
  indexes the root under the path it was given while the root holds the canonical path.
  On the example project, built from the relative path \<^verbatim>\<open>.\<close>, the root holds
  \<^verbatim>\<open>/r\<close>, the index has no entry for \<^verbatim>\<open>/r\<close>, its entry for \<^verbatim>\<open>.\<close> is the root,
  the child \<^verbatim>\<open>/r/a\<close> is indexed under its own path, and \<^verbatim>\<open>expand_path\<close> on the path
  of the root raises the not-found error.
\<close>

theorem build_from_path_root_not_indexed:
  "(case FileTree_build_from_path 10 ex_env ''.'' 1 of
      Return (h, t) \<Rightarrow>
        full_path (h ! root t) = ''/r'' \<and>
        nodes t (full_path (h ! root t)) = None \<and>
        nodes t ''.'' = Some (root t) \<and>
        nodes t (full_path (h ! 2)) = Some 2 \<and>
        fst (expand_path 10 ex_env (full_path (h ! root t)) (h, t)) = Raise (not_found ''/r'')
    | _ \<Rightarrow> False)"
  by code_simp

subsection \<open>Changed files\<close>

lemma get_changed_files_no_repository:
  "Repo g project_root = Some InvalidGitRepositoryError \<or> Repo g project_root = Some NoSuchPathError
   \<Longrightarrow> get_changed_files g project_root head base = Return []"
  by (auto simp: get_changed_files_def)

lemma get_changed_files_diff_fails:
  "Repo g project_root = None \<Longrightarrow> head \<noteq> [] \<Longrightarrow>
   git_diff g [''--name-only'', head, base] = Inl GitCommandError \<Longrightarrow>
   get_changed_files g project_root head base = Return []"
  by (simp add: get_changed_files_def)

lemma get_changed_files_two_refs:
  "Repo g project_root = None \<Longrightarrow> head \<noteq> [] \<Longrightarrow>
   git_diff g [''--name-only'', head, base] = Inr diff \<Longrightarrow>
   \<exists>ps. get_changed_files g project_root head base = Return (map Path ps) \<and>
        distinct ps \<and> set ps = set (splitlines diff)"
  by (rule exI [of _ "remdups (splitlines diff)"]) (simp add: get_changed_files_def)

lemma get_changed_files_working_tree:
  "Repo g project_root = None \<Longrightarrow>
   git_diff g [''--name-only'', base] = Inr diff \<Longrightarrow>
   git_ls_files g [''--others'', ''--exclude-standard''] = Inr untracked \<Longrightarrow>
   \<exists>ps. get_changed_files g project_root [] base = Return (map Path ps) \<and>
        distinct ps \<and> set ps = set (splitlines diff) \<union> set (splitlines untracked)"
  by (rule exI [of _ "remdups (splitlines diff @ splitlines untracked)"])
     (simp add: get_changed_files_def)

text \<open>
  Claim C7. The claim asks that no failure of git reaches the caller. The two failures
  of opening the repository and the failure of \<^verbatim>\<open>git diff\<close> are turned into the empty
  list (the lemmas above), but the call of \<^verbatim>\<open>git ls-files\<close> stands outside every
  \<^verbatim>\<open>try\<close>: with no head given, a working \<^verbatim>\<open>git diff\<close> and a failing
  \<^verbatim>\<open>git ls-files\<close>, the exception reaches the caller.
\<close>

theorem get_changed_files_raises:
  "get_changed_files ex_git ''/repo'' '''' ''main'' = Raise GitCommandError"
  by (simp add: get_changed_files_def ex_git_def)

subsection \<open>What building a subtree changes\<close>

lemma grows_refl: "grows r h h"
  unfolding grows_def by (auto intro: exI [of _ "[]"])

lemma grows_length: "grows r h h' \<Longrightarrow> length h \<le> length h'"
  by (simp add: grows_def)

lemma grows_other: "grows r h h' \<Longrightarrow> a < length h \<Longrightarrow> a \<noteq> r \<Longrightarrow> h' ! a = h ! a"
  by (simp add: grows_def)

lemma grows_trans:
  assumes "grows r h1 h2" and "grows r h2 h3"
  shows "grows r h1 h3"
proof -
  from assms(1) obtain cs where cs: "h2 ! r = (h1 ! r) \<lparr> children := children (h1 ! r) @ cs \<rparr>"
      "\<forall>c \<in> set cs. length h1 \<le> c \<and> c < length h2"
    unfolding grows_def by blast
  from assms(2) obtain ds where ds: "h3 ! r = (h2 ! r) \<lparr> children := children (h2 ! r) @ ds \<rparr>"
      "\<forall>c \<in> set ds. length h2 \<le> c \<and> c < length h3"
    unfolding grows_def by blast
  have len: "length h1 \<le> length h2" "length h2 \<le> length h3"
    using assms by (auto simp: grows_def)
  have "h3 ! r = (h1 ! r) \<lparr> children := children (h1 ! r) @ (cs @ ds) \<rparr>"
    using cs(1) ds(1) by simp
  moreover have "\<forall>c \<in> set (cs @ ds). length h1 \<le> c \<and> c < length h3"
    using cs(2) ds(2) len by fastforce
  moreover have "\<forall>a < length h1. a \<noteq> r \<longrightarrow> h3 ! a = h1 ! a"
    using assms len by (auto simp: grows_def)
  moreover have "length h1 \<le> length h3" using len by simp
  ultimately show ?thesis
    unfolding grows_def by blast
qed

lemma grows_new:
  assumes "grows r h1 h2" and "grows c h2 h3" and "length h1 \<le> c" and "r < length h1"
  shows "grows r h1 h3"
proof -
  from assms(1) obtain cs where cs: "h2 ! r = (h1 ! r) \<lparr> children := children (h1 ! r) @ cs \<rparr>"
      "\<forall>c \<in> set cs. length h1 \<le> c \<and> c < length h2"
    unfolding grows_def by blast
  have len: "length h1 \<le> length h2" "length h2 \<le> length h3"
    using assms by (auto simp: grows_def)
  have "r \<noteq> c" "r < length h2" using assms(3,4) len by auto
  then have "h3 ! r = h2 ! r" using assms(2) by (simp add: grows_def)
  with cs(1) have "h3 ! r = (h1 ! r) \<lparr> children := children (h1 ! r) @ cs \<rparr>" by simp
  moreover have "\<forall>c \<in> set cs. length h1 \<le> c \<and> c < length h3"
    using cs(2) len by fastforce
  moreover have "\<forall>a < length h1. a \<noteq> r \<longrightarrow> h3 ! a = h1 ! a"
  proof (intro allI impI)
    fix a assume a: "a < length h1" "a \<noteq> r"
    then have "a < length h2" "a \<noteq> c" using len assms(3) by auto
    then have "h3 ! a = h2 ! a" using assms(2) by (simp add: grows_def)
    also have "h2 ! a = h1 ! a" using assms(1) a by (simp add: grows_def)
    finally show "h3 ! a = h1 ! a" .
  qed
  moreover have "length h1 \<le> length h3" using len by simp
  ultimately show ?thesis
    unfolding grows_def by blast
qed

lemma fst_attach:
  "fst (attach r p n w) =
     (fst w @ [n]) [r := ((fst w @ [n]) ! r) \<lparr> children := children ((fst w @ [n]) ! r) @ [length (fst w)] \<rparr>]"
  by (simp add: attach_def Let_def)

lemma length_attach [simp]: "length (fst (attach r p n w)) = Suc (length (fst w))"
  by (simp add: fst_attach)

lemma root_attach [simp]: "root (snd (attach r p n w)) = root (snd w)"
  by (simp add: attach_def Let_def)

lemma attach_at_root:
  "r < length (fst w) \<Longrightarrow>
   fst (attach r p n w) ! r = (fst w ! r) \<lparr> children := children (fst w ! r) @ [length (fst w)] \<rparr>"
  by (simp add: fst_attach nth_append)

lemma attach_at_new:
  "r < length (fst w) \<Longrightarrow> fst (attach r p n w) ! length (fst w) = n"
  by (simp add: fst_attach nth_append)

lemma attach_new_fields:
  "full_path (fst (attach r p n w) ! length (fst w)) = full_path n"
  "is_dir (fst (attach r p n w) ! length (fst w)) = is_dir n"
  by (cases "r = length (fst w)"; simp add: fst_attach)+

lemma attach_at_other:
  "a < length (fst w) \<Longrightarrow> a \<noteq> r \<Longrightarrow> fst (attach r p n w) ! a = fst w ! a"
  by (simp add: fst_attach nth_append)

lemma grows_attach: "r < length (fst w) \<Longrightarrow> grows r (fst w) (fst (attach r p n w))"
  unfolding grows_def
  by (auto simp: attach_at_root attach_at_other intro!: exI [of _ "[length (fst w)]"])

lemma except_PermissionError_eq:
  "except_PermissionError (out, w) =
     (if out = Raise (OSError PermissionError) then Return () else out, w)"
  by (cases "(out, w)" rule: except_PermissionError.cases) auto

lemma os_listdir_Inr:
  "os_listdir e p = Inr es \<longleftrightarrow> isdir e p \<and> listdir e p = Some es"
  by (auto simp: os_listdir_def split: option.splits)

lemma os_listdir_Inl:
  "os_listdir e p = Inl x \<longleftrightarrow>
     (isdir e p \<and> listdir e p = None \<and> x = PermissionError) \<or>
     (\<not> isdir e p \<and> x = (if isfile e p then NotADirectoryError else FileNotFoundError))"
  by (auto simp: os_listdir_def split: option.splits)

lemma build_entries_Nil: "build_entries fuel e r d [] w = (Return (), w)"
  by simp

lemma build_entries_skip:
  "skipped e (full_path (fst w ! r)) entry \<Longrightarrow>
   build_entries fuel e r d (entry # rest) w = build_entries fuel e r d rest w"
  by (auto simp: skipped_def)

lemma build_entries_child:
  "\<not> skipped e (full_path (fst w ! r)) entry \<Longrightarrow>
   build_entries fuel e r d (entry # rest) w =
     (case build_subtree fuel e (length (fst w)) (max (d - 1) 0)
             (attach r (path_join (full_path (fst w ! r)) entry)
                (new_child e r d (path_join (full_path (fst w ! r)) entry)) w) of
        (Return u, w') \<Rightarrow> build_entries fuel e r d rest w'
      | (Raise x, w') \<Rightarrow> (Raise x, w')
      | (Timeout, w') \<Rightarrow> (Timeout, w'))"
  by (auto simp: skipped_def new_child_def Let_def FileNode_build_from_path_def
           split: outcome.splits prod.splits)

lemma build_entries_child_on:
  assumes "\<not> skipped e (full_path (fst w ! r)) entry"
    and "build_subtree fuel e (length (fst w)) (max (d - 1) 0)
           (attach r (path_join (full_path (fst w ! r)) entry)
              (new_child e r d (path_join (full_path (fst w ! r)) entry)) w) = (Return (), w3)"
  shows "build_entries fuel e r d (entry # rest) w = build_entries fuel e r d rest w3"
  using assms by (simp add: build_entries_child del: build_entries.simps)

lemma build_entries_child_off:
  assumes "\<not> skipped e (full_path (fst w ! r)) entry"
    and "build_subtree fuel e (length (fst w)) (max (d - 1) 0)
           (attach r (path_join (full_path (fst w ! r)) entry)
              (new_child e r d (path_join (full_path (fst w ! r)) entry)) w) = (out, w3)"
    and "out \<noteq> Return ()"
  shows "build_entries fuel e r d (entry # rest) w = (out, w3)"
  using assms by (cases out) (simp_all add: build_entries_child del: build_entries.simps)

lemma build_subtree_Suc:
  "build_subtree (Suc fuel) e r d w =
     (if is_dir (fst w ! r) then
        except_PermissionError
          (case os_listdir e (full_path (fst w ! r)) of
             Inl x \<Rightarrow> (Raise (OSError x), w)
           | Inr entries \<Rightarrow> build_entries fuel e r d entries w)
      else (Return (), w))"
  by simp

lemma build_induct [case_names Nil Skip Child Zero Suc]:
  assumes "\<And>fuel e r d w. P fuel e r d [] w"
    and "\<And>fuel e r d entry rest w.
           skipped e (full_path (fst w ! r)) entry \<Longrightarrow> P fuel e r d rest w \<Longrightarrow>
           P fuel e r d (entry # rest) w"
    and "\<And>fuel e r d entry rest w.
           \<not> skipped e (full_path (fst w ! r)) entry \<Longrightarrow>
           Q fuel e (length (fst w)) (max (d - 1) 0)
             (attach r (path_join (full_path (fst w ! r)) entry)
                (new_child e r d (path_join (full_path (fst w ! r)) entry)) w) \<Longrightarrow>
           (\<And>w3. build_subtree fuel e (length (fst w)) (max (d - 1) 0)
                    (attach r (path_join (full_path (fst w ! r)) entry)
                       (new_child e r d (path_join (full_path (fst w ! r)) entry)) w)
                  = (Return (), w3)
                  \<Longrightarrow> P fuel e r d rest w3) \<Longrightarrow>
           P fuel e r d (entry # rest) w"
    and "\<And>e r d w. Q 0 e r d w"
    and "\<And>fuel e r d w.
           (\<And>es. is_dir (fst w ! r) \<Longrightarrow> os_listdir e (full_path (fst w ! r)) = Inr es \<Longrightarrow>
                 P fuel e r d es w) \<Longrightarrow>
           Q (Suc fuel) e r d w"
  shows "P fuel e r d es w" and "Q fuel e r d w"
proof (induction fuel e r d es w and fuel e r d w rule: build_entries_build_subtree.induct)
  case (1 fuel e r depth w)
  show ?case by (rule assms(1))
next
  case (2 fuel e r depth entry rest w)
  show ?case
  proof (cases "skipped e (full_path (fst w ! r)) entry")
    case True
    then have "P fuel e r depth rest w"
      using "2.IH"(1,2) by (auto simp: skipped_def)
    with True show ?thesis by (rule assms(2))
  next
    case False
    let ?p = "path_join (full_path (fst w ! r)) entry"
    let ?n = "(FileNode_build_from_path e ?p) \<lparr> expanded := (depth > 0), parent := Some r \<rparr>"
    from False have ns: "\<not> startswith entry ''.''" and dir: "\<not> \<not> isdir e ?p"
      by (auto simp: skipped_def)
    have isd: "is_dir ?n" using dir by (simp add: FileNode_build_from_path_def)
    have n: "new_child e r depth ?p = ?n" by (simp add: new_child_def)
    show ?thesis
    proof (rule assms(3) [OF False])
      show "Q fuel e (length (fst w)) (max (depth - 1) 0) (attach r ?p (new_child e r depth ?p) w)"
        unfolding n by (rule "2.IH"(3) [OF ns dir refl refl isd])
    next
      fix w3
      assume "build_subtree fuel e (length (fst w)) (max (depth - 1) 0)
                (attach r ?p (new_child e r depth ?p) w) = (Return (), w3)"
      then have "(Return (), w3) = build_subtree fuel e (length (fst w)) (max (depth - 1) 0)
                (attach r ?p ?n w)"
        unfolding n by simp
      then show "P fuel e r depth rest w3"
        by (rule "2.IH"(4) [OF ns dir refl refl isd _ refl])
    qed
  qed
next
  case (3 e r depth w)
  show ?case by (rule assms(4))
next
  case (4 fuel e r depth w)
  show ?case by (rule assms(5)) (rule "4.IH")
qed

declare build_entries.simps [simp del] build_subtree.simps [simp del]

lemma build_grows:
  "build_entries fuel e r d es w = (out, w') \<Longrightarrow> r < length (fst w) \<Longrightarrow>
     grows r (fst w) (fst w') \<and> root (snd w') = root (snd w)"
  "build_subtree fuel e r d w = (out, w') \<Longrightarrow> r < length (fst w) \<Longrightarrow>
     grows r (fst w) (fst w') \<and> root (snd w') = root (snd w)"
proof (induction fuel e r d es w and fuel e r d w arbitrary: out w' and out w' rule: build_induct)
  case (Nil fuel e r d w)
  then show ?case by (auto simp: build_entries_Nil grows_refl)
next
  case (Skip fuel e r d entry rest w)
  then show ?case by (simp add: build_entries_skip)
next
  case (Child fuel e r d entry rest w)
  let ?p = "path_join (full_path (fst w ! r)) entry"
  let ?w2 = "attach r ?p (new_child e r d ?p) w"
  obtain out3 w3 where
    n: "build_subtree fuel e (length (fst w)) (max (d - 1) 0) ?w2 = (out3, w3)"
    by (cases "build_subtree fuel e (length (fst w)) (max (d - 1) 0) ?w2")
  have g2: "grows r (fst w) (fst ?w2)" using Child.prems(2) by (rule grows_attach)
  from Child.IH(1) [OF n]
  have g3: "grows (length (fst w)) (fst ?w2) (fst w3)" and t3: "root (snd w3) = root (snd w)"
    by auto
  from grows_new [OF g2 g3 _ Child.prems(2)] have g13: "grows r (fst w) (fst w3)" by simp
  then have r3: "r < length (fst w3)" using Child.prems(2) grows_length by fastforce
  show ?case
  proof (cases "out3 = Return ()")
    case True
    with n have n': "build_subtree fuel e (length (fst w)) (max (d - 1) 0) ?w2 = (Return (), w3)"
      by simp
    from build_entries_child_on [OF Child.hyps n'] Child.prems(1)
    have rest: "build_entries fuel e r d rest w3 = (out, w')" by simp
    from Child.IH(2) [OF n' rest r3]
    have "grows r (fst w3) (fst w')" and "root (snd w') = root (snd w3)" by auto
    with g13 t3 show ?thesis by (auto intro: grows_trans)
  next
    case False
    from build_entries_child_off [OF Child.hyps n False] Child.prems(1)
    have "w' = w3" by simp
    with g13 t3 show ?thesis by simp
  qed
next
  case (Zero e r d w)
  then show ?case by (auto simp: build_subtree.simps grows_refl)
next
  case (Suc fuel e r d w)
  show ?case
  proof (cases "is_dir (fst w ! r)")
    case False
    with Suc.prems show ?thesis by (auto simp: build_subtree_Suc grows_refl)
  next
    case True
    show ?thesis
    proof (cases "os_listdir e (full_path (fst w ! r))")
      case (Inl x)
      with True Suc.prems(1) have "w' = w"
        by (auto simp: build_subtree_Suc except_PermissionError_eq)
      then show ?thesis by (simp add: grows_refl)
    next
      case (Inr es)
      obtain out1 w1 where b: "build_entries fuel e r d es w = (out1, w1)"
        by (cases "build_entries fuel e r d es w")
      with True Inr Suc.prems(1) have "w' = w1"
        by (auto simp: build_subtree_Suc except_PermissionError_eq)
      with Suc.IH [OF True Inr b Suc.prems(2)] show ?thesis by simp
    qed
  qed
qed

lemma grows_fields:
  assumes "grows r h h'" and "a < length h"
  shows "full_path (h' ! a) = full_path (h ! a)" and "is_dir (h' ! a) = is_dir (h ! a)"
    and "expanded (h' ! a) = expanded (h ! a)" and "is_package (h' ! a) = is_package (h ! a)"
    and "parent (h' ! a) = parent (h ! a)"
proof -
  from assms(1) obtain cs where cs: "h' ! r = (h ! r) \<lparr> children := children (h ! r) @ cs \<rparr>"
    unfolding grows_def by blast
  have "h' ! a = h ! a \<or> h' ! a = (h ! a) \<lparr> children := children (h ! a) @ cs \<rparr>"
    using assms cs by (cases "a = r") (auto simp: grows_def)
  then show "full_path (h' ! a) = full_path (h ! a)" and "is_dir (h' ! a) = is_dir (h ! a)"
    and "expanded (h' ! a) = expanded (h ! a)" and "is_package (h' ! a) = is_package (h ! a)"
    and "parent (h' ! a) = parent (h ! a)"
    by auto
qed

lemma attach_grows_fields:
  "r < length (fst w) \<Longrightarrow> full_path (fst (attach r p n w) ! r) = full_path (fst w ! r)"
  by (simp add: attach_at_root)

lemma new_child_fields [simp]:
  "full_path (new_child e r d p) = p" "is_dir (new_child e r d p) = isdir e p"
  "expanded (new_child e r d p) = (d > 0)" "parent (new_child e r d p) = Some r"
  "children (new_child e r d p) = []"
  by (simp_all add: new_child_def FileNode_build_from_path_def)

lemma listed_dirs_member:
  "listdir e p = Some es \<Longrightarrow> x \<in> set es \<Longrightarrow> \<not> skipped e p x \<Longrightarrow>
   path_join p x \<in> set (listed_dirs e p)"
  by (simp add: listed_dirs_def)

text \<open>
  The loop never raises: the nodes it creates are directories of the file system at
  hand. The method raises only where its own listing does, before it has changed anything,
  on a node that is recorded as a directory while its path no longer is one.
\<close>

lemma build_raises:
  "fst (build_entries fuel e r d es w) \<noteq> Raise x"
  "fst (build_subtree fuel e r d w) = Raise x \<Longrightarrow>
     is_dir (fst w ! r) \<and> \<not> isdir e (full_path (fst w ! r)) \<and>
     snd (build_subtree fuel e r d w) = w \<and>
     x = OSError (if isfile e (full_path (fst w ! r)) then NotADirectoryError
                  else FileNotFoundError)"
proof (induction fuel e r d es w and fuel e r d w arbitrary: x and x rule: build_induct)
  case (Nil fuel e r d w)
  show ?case by (simp add: build_entries_Nil)
next
  case (Skip fuel e r d entry rest w)
  then show ?case by (simp add: build_entries_skip)
next
  case (Child fuel e r d entry rest w)
  let ?p = "path_join (full_path (fst w ! r)) entry"
  let ?w2 = "attach r ?p (new_child e r d ?p) w"
  obtain out3 w3 where
    n: "build_subtree fuel e (length (fst w)) (max (d - 1) 0) ?w2 = (out3, w3)"
    by (cases "build_subtree fuel e (length (fst w)) (max (d - 1) 0) ?w2")
  have isd: "isdir e ?p" using Child.hyps by (simp add: skipped_def)
  show ?case
  proof (cases out3)
    case (Return u)
    with n have n': "build_subtree fuel e (length (fst w)) (max (d - 1) 0) ?w2 = (Return (), w3)"
      by simp
    from Child.IH(2) [OF n'] build_entries_child_on [OF Child.hyps n'] show ?thesis by simp
  next
    case (Raise y)
    have "y \<noteq> x"
    proof
      assume "y = x"
      with Child.IH(1) n Raise have "\<not> isdir e (full_path (fst ?w2 ! length (fst w)))" by simp
      with isd show False by (simp add: attach_new_fields)
    qed
    with build_entries_child_off [OF Child.hyps n] Raise show ?thesis by simp
  next
    case Timeout
    with build_entries_child_off [OF Child.hyps n] show ?thesis by simp
  qed
next
  case (Zero e r d w)
  then show ?case by (simp add: build_subtree.simps)
next
  case (Suc fuel e r d w)
  show ?case
  proof (cases "os_listdir e (full_path (fst w ! r))")
    case (Inl y)
    have eq: "build_subtree (Suc fuel) e r d w =
        (if is_dir (fst w ! r)
         then (if y = PermissionError then Return () else Raise (OSError y), w)
         else (Return (), w))"
      by (simp add: build_subtree_Suc Inl except_PermissionError_eq)
    from Suc.prems have "is_dir (fst w ! r)" "y \<noteq> PermissionError" "x = OSError y"
      unfolding eq by (auto split: if_splits)
    moreover from Inl have "(isdir e (full_path (fst w ! r)) \<and> y = PermissionError) \<or>
        (\<not> isdir e (full_path (fst w ! r)) \<and>
         y = (if isfile e (full_path (fst w ! r)) then NotADirectoryError else FileNotFoundError))"
      by (auto simp: os_listdir_Inl)
    ultimately show ?thesis unfolding eq by auto
  next
    case (Inr es)
    obtain out1 w1 where b: "build_entries fuel e r d es w = (out1, w1)"
      by (cases "build_entries fuel e r d es w")
    show ?thesis
    proof (cases "is_dir (fst w ! r)")
      case True
      from Suc.IH [OF True Inr] b have "out1 \<noteq> Raise (OSError PermissionError)" "out1 \<noteq> Raise x"
        by simp_all
      with True Inr b Suc.prems(1) show ?thesis
        by (simp add: build_subtree_Suc except_PermissionError_eq)
    next
      case False
      with Suc.prems(1) show ?thesis by (simp add: build_subtree_Suc)
    qed
  qed
qed

lemma build_subtree_Return_cases [consumes 1, case_names Same Listed]:
  assumes "build_subtree (Suc fuel) e r d w = (Return (), w')"
  obtains "w' = w"
      "is_dir (fst w ! r) \<longrightarrow>
         isdir e (full_path (fst w ! r)) \<and> listdir e (full_path (fst w ! r)) = None"
  | es where "is_dir (fst w ! r)" "isdir e (full_path (fst w ! r))"
      "listdir e (full_path (fst w ! r)) = Some es"
      "os_listdir e (full_path (fst w ! r)) = Inr es"
      "build_entries fuel e r d es w = (Return (), w')"
proof (cases "is_dir (fst w ! r)")
  case False
  with assms have "w' = w" by (simp add: build_subtree_Suc)
  with False that(1) show ?thesis by simp
next
  case True
  show ?thesis
  proof (cases "os_listdir e (full_path (fst w ! r))")
    case (Inl y)
    with True assms have "w' = w" "y = PermissionError"
      by (auto simp: build_subtree_Suc except_PermissionError_eq split: if_splits)
    with Inl that(1) show ?thesis by (auto simp: os_listdir_Inl split: if_splits)
  next
    case (Inr es)
    obtain out1 w1 where b: "build_entries fuel e r d es w = (out1, w1)"
      by (cases "build_entries fuel e r d es w")
    from build_raises(1) [of fuel e r d es w "OSError PermissionError"] b
    have "out1 \<noteq> Raise (OSError PermissionError)" by simp
    with True Inr b assms have "build_entries fuel e r d es w = (Return (), w')"
      by (simp add: build_subtree_Suc except_PermissionError_eq)
    with True Inr that(2) show ?thesis by (simp add: os_listdir_Inr)
  qed
qed

lemma build_returns:
  "ranked e rank \<Longrightarrow> r < length (fst w) \<Longrightarrow>
   (\<forall>x \<in> set es. \<not> skipped e (full_path (fst w ! r)) x \<longrightarrow>
        rank (path_join (full_path (fst w ! r)) x) < fuel) \<Longrightarrow>
   \<exists>w'. build_entries fuel e r d es w = (Return (), w')"
  "ranked e rank \<Longrightarrow> r < length (fst w) \<Longrightarrow>
   (is_dir (fst w ! r) \<longrightarrow> isdir e (full_path (fst w ! r))) \<Longrightarrow>
   rank (full_path (fst w ! r)) < fuel \<Longrightarrow>
   \<exists>w'. build_subtree fuel e r d w = (Return (), w')"
proof (induction fuel e r d es w and fuel e r d w rule: build_induct)
  case (Nil fuel e r d w)
  show ?case by (simp add: build_entries_Nil)
next
  case (Skip fuel e r d entry rest w)
  then show ?case by (simp add: build_entries_skip)
next
  case (Child fuel e r d entry rest w)
  let ?p = "path_join (full_path (fst w ! r)) entry"
  let ?w2 = "attach r ?p (new_child e r d ?p) w"
  have isd: "isdir e ?p" using Child.hyps by (simp add: skipped_def)
  have c2: "fst ?w2 ! length (fst w) = new_child e r d ?p"
    using Child.prems(2) by (rule attach_at_new)
  have "rank (full_path (fst ?w2 ! length (fst w))) < fuel"
    using Child.prems(3) Child.hyps by (simp add: c2)
  moreover have "is_dir (fst ?w2 ! length (fst w)) \<longrightarrow> isdir e (full_path (fst ?w2 ! length (fst w)))"
    using isd by (simp add: c2)
  ultimately obtain w3 where
    w3: "build_subtree fuel e (length (fst w)) (max (d - 1) 0) ?w2 = (Return (), w3)"
    using Child.IH(1) [OF Child.prems(1)] by auto
  have g2: "grows r (fst w) (fst ?w2)" using Child.prems(2) by (rule grows_attach)
  from build_grows(2) [OF w3] have g3: "grows (length (fst w)) (fst ?w2) (fst w3)" by simp
  from grows_new [OF g2 g3 _ Child.prems(2)] have g13: "grows r (fst w) (fst w3)" by simp
  then have r3: "r < length (fst w3)" using Child.prems(2) grows_length by fastforce
  have p3: "full_path (fst w3 ! r) = full_path (fst w ! r)"
    using grows_fields(1) [OF g13 Child.prems(2)] .
  from Child.IH(2) [OF w3 Child.prems(1) r3] Child.prems(3) p3
  obtain w' where "build_entries fuel e r d rest w3 = (Return (), w')" by auto
  with build_entries_child_on [OF Child.hyps w3] show ?case by simp
next
  case (Zero e r d w)
  then show ?case by simp
next
  case (Suc fuel e r d w)
  show ?case
  proof (cases "is_dir (fst w ! r)")
    case False
    then show ?thesis by (simp add: build_subtree_Suc)
  next
    case True
    with Suc.prems(3) have isd: "isdir e (full_path (fst w ! r))" by simp
    show ?thesis
    proof (cases "listdir e (full_path (fst w ! r))")
      case None
      with True isd show ?thesis
        by (simp add: build_subtree_Suc os_listdir_def)
    next
      case (Some es)
      with isd have ol: "os_listdir e (full_path (fst w ! r)) = Inr es"
        by (simp add: os_listdir_Inr)
      have "\<forall>x \<in> set es. \<not> skipped e (full_path (fst w ! r)) x \<longrightarrow>
              rank (path_join (full_path (fst w ! r)) x) < fuel"
      proof (intro ballI impI)
        fix x assume "x \<in> set es" "\<not> skipped e (full_path (fst w ! r)) x"
        with Some have "path_join (full_path (fst w ! r)) x \<in> set (listed_dirs e (full_path (fst w ! r)))"
          by (simp add: listed_dirs_member)
        with Suc.prems(1) have "rank (path_join (full_path (fst w ! r)) x) < rank (full_path (fst w ! r))"
          unfolding ranked_def by blast
        with Suc.prems(4) show "rank (path_join (full_path (fst w ! r)) x) < fuel" by simp
      qed
      from Suc.IH [OF True ol Suc.prems(1,2) this] True ol
      show ?thesis by (auto simp: build_subtree_Suc)
    qed
  qed
qed

subsection \<open>Expanding a path\<close>

lemma not_found_neq: "not_found p \<noteq> not_a_directory p"
proof
  assume "not_found p = not_a_directory p"
  then have "length (''Directory '' @ p @ '' not found in tree.'') =
             length (p @ '' does not seem to be a directory and cannot be expanded.'')"
    unfolding not_found_def not_a_directory_def by (metis exn.inject)
  then show False by simp
qed

text \<open>
  Claim C6, as the code has it. \<^verbatim>\<open>expand_path\<close> raises the not-found error exactly when
  the path is not in the index, and then leaves the store and the tree as they were; it
  raises the not-a-directory error when the indexed node is not a directory, and again
  leaves them as they were; and on an indexed directory node it is the call of
  \<^verbatim>\<open>_build_subtree\<close> on that node with depth 1. That call returns when the path of the
  node is still a directory of the file system (on a project whose directories form a
  finite tree, with fuel beyond the rank of the node's path). When the path is no longer a
  directory, \<^verbatim>\<open>os.listdir\<close> raises \<^verbatim>\<open>NotADirectoryError\<close> or \<^verbatim>\<open>FileNotFoundError\<close>,
  which \<^verbatim>\<open>except PermissionError\<close> does not catch: the error leaves \<^verbatim>\<open>expand_path\<close>,
  with the store and the tree as they were.
\<close>

theorem expand_path_conditions:
  assumes "ranked e rank"
    and "\<And>n. nodes t path = Some n \<Longrightarrow> n < length h \<and> rank (full_path (h ! n)) < fuel"
  shows "(fst (expand_path fuel e path (h, t)) = Raise (not_found path) \<longleftrightarrow> nodes t path = None) \<and>
         (nodes t path = None \<longrightarrow>
            expand_path fuel e path (h, t) = (Raise (not_found path), (h, t))) \<and>
         (\<forall>n. nodes t path = Some n \<and> \<not> is_dir (h ! n) \<longrightarrow>
            expand_path fuel e path (h, t) = (Raise (not_a_directory path), (h, t))) \<and>
         (\<forall>n. nodes t path = Some n \<and> is_dir (h ! n) \<longrightarrow>
            expand_path fuel e path (h, t) = build_subtree fuel e n 1 (h, t) \<and>
            (isdir e (full_path (h ! n)) \<longrightarrow>
               (\<exists>w'. expand_path fuel e path (h, t) = (Return (), w'))) \<and>
            (\<not> isdir e (full_path (h ! n)) \<longrightarrow>
               expand_path fuel e path (h, t) =
                 (Raise (OSError (if isfile e (full_path (h ! n)) then NotADirectoryError
                                  else FileNotFoundError)), (h, t))))"
proof -
  have absent: "expand_path fuel e path (h, t) = (Raise (not_found path), (h, t))"
    if "nodes t path = None"
    using that by (simp add: expand_path_def)
  have nodir: "expand_path fuel e path (h, t) = (Raise (not_a_directory path), (h, t))"
    if "nodes t path = Some n" "\<not> is_dir (h ! n)" for n
    using that by (simp add: expand_path_def)
  have call: "expand_path fuel e path (h, t) = build_subtree fuel e n 1 (h, t)"
    if n: "nodes t path = Some n" "is_dir (h ! n)" for n
    using that by (simp add: expand_path_def)
  have ret: "\<exists>w'. expand_path fuel e path (h, t) = (Return (), w')"
    if n: "nodes t path = Some n" "is_dir (h ! n)" "isdir e (full_path (h ! n))" for n
  proof -
    from assms(2) [OF n(1)] n(3)
    have "n < length (fst (h, t))"
      "is_dir (fst (h, t) ! n) \<longrightarrow> isdir e (full_path (fst (h, t) ! n))"
      "rank (full_path (fst (h, t) ! n)) < fuel"
      by simp_all
    from build_returns(2) [OF assms(1) this] call [OF n(1,2)] show ?thesis by simp
  qed
  have gone: "expand_path fuel e path (h, t) =
      (Raise (OSError (if isfile e (full_path (h ! n)) then NotADirectoryError
                       else FileNotFoundError)), (h, t))"
    if n: "nodes t path = Some n" "is_dir (h ! n)" "\<not> isdir e (full_path (h ! n))" for n
  proof -
    from assms(2) [OF n(1)] obtain k where k: "fuel = Suc k" by (cases fuel) auto
    from n(2,3) have "build_subtree (Suc k) e n 1 (h, t) =
        (Raise (OSError (if isfile e (full_path (h ! n)) then NotADirectoryError
                         else FileNotFoundError)), (h, t))"
      by (simp add: build_subtree_Suc os_listdir_def except_PermissionError_eq)
    with call [OF n(1,2)] k show ?thesis by simp
  qed
  have "nodes t path = None" if "fst (expand_path fuel e path (h, t)) = Raise (not_found path)"
  proof (cases "nodes t path")
    case None
    then show ?thesis .
  next
    case (Some n)
    show ?thesis
    proof (cases "is_dir (h ! n)")
      case True
      show ?thesis
      proof (cases "isdir e (full_path (h ! n))")
        case True
        from ret [OF Some \<open>is_dir (h ! n)\<close> True] that show ?thesis by auto
      next
        case False
        from gone [OF Some True False] that show ?thesis
          by (simp add: not_found_def split: if_splits)
      qed
    next
      case False
      from nodir [OF Some False] that not_found_neq [of path] show ?thesis by auto
    qed
  qed
  then have 1: "fst (expand_path fuel e path (h, t)) = Raise (not_found path) \<longleftrightarrow>
                nodes t path = None"
    using absent by auto
  from 1 absent nodir call ret gone show ?thesis by blast
qed

lemma ex_ranked: "ranked ex_env ex_rank"
  by (auto simp: ranked_def listed_dirs_def ex_env_def ex_rank_def skipped_def path_join_def
                 startswith_def endswith_def split: if_splits)

lemma ex_ranked3: "ranked ex_env3 ex_rank"
  by (auto simp: ranked_def listed_dirs_def ex_env3_def ex_env_def ex_rank_def skipped_def
                 path_join_def startswith_def endswith_def split: if_splits)

theorem expand_path_conditions_witness:
  "ranked ex_env ex_rank \<and> nodes ex_tree ''/r/a'' = Some 2 \<and> is_dir (ex_heap ! 2) \<and>
   isdir ex_env (full_path (ex_heap ! 2)) \<and>
   fst (expand_path 30 ex_env ''/r/a'' (ex_heap, ex_tree)) \<noteq> Raise (not_found ''/r/a'') \<and>
   expand_path 30 ex_env ''/r/a'' (ex_heap, ex_tree) = build_subtree 30 ex_env 2 1 (ex_heap, ex_tree) \<and>
   (\<exists>w'. expand_path 30 ex_env ''/r/a'' (ex_heap, ex_tree) = (Return (), w')) \<and>
   ranked ex_env3 ex_rank \<and> nodes ex_tree ''/r/b'' = Some 1 \<and> is_dir (ex_heap ! 1) \<and>
   \<not> isdir ex_env3 (full_path (ex_heap ! 1)) \<and>
   expand_path 30 ex_env3 ''/r/b'' (ex_heap, ex_tree) =
     (Raise (OSError FileNotFoundError), (ex_heap, ex_tree))"
proof -
  have n: "nodes ex_tree ''/r/a'' = Some 2" by (simp add: ex_tree_def)
  have d: "is_dir (ex_heap ! 2)" by (simp add: ex_heap_def)
  have i: "isdir ex_env (full_path (ex_heap ! 2))" by (simp add: ex_heap_def ex_env_def)
  have b: "\<And>n. nodes ex_tree ''/r/a'' = Some n \<Longrightarrow>
             n < length ex_heap \<and> ex_rank (full_path (ex_heap ! n)) < 30"
    by (simp add: ex_tree_def ex_heap_def ex_rank_def)
  note main = expand_path_conditions [of ex_env ex_rank ex_tree "''/r/a''" ex_heap 30, OF ex_ranked b]
  from main n have 1: "fst (expand_path 30 ex_env ''/r/a'' (ex_heap, ex_tree)) \<noteq> Raise (not_found ''/r/a'')"
    by simp
  from main n d have 2: "expand_path 30 ex_env ''/r/a'' (ex_heap, ex_tree) =
      build_subtree 30 ex_env 2 1 (ex_heap, ex_tree)"
    by blast
  from main n d i have 3: "\<exists>w'. expand_path 30 ex_env ''/r/a'' (ex_heap, ex_tree) = (Return (), w')"
    by blast
  have n': "nodes ex_tree ''/r/b'' = Some 1" by (simp add: ex_tree_def)
  have d': "is_dir (ex_heap ! 1)" by (simp add: ex_heap_def)
  have p': "full_path (ex_heap ! 1) = ''/r/b''" by (simp add: ex_heap_def)
  have i': "\<not> isdir ex_env3 (full_path (ex_heap ! 1))"
    unfolding p' by (simp add: ex_env3_def)
  have f': "\<not> isfile ex_env3 (full_path (ex_heap ! 1))"
    unfolding p' by (simp add: ex_env3_def ex_env_def)
  have b': "\<And>n. nodes ex_tree ''/r/b'' = Some n \<Longrightarrow>
             n < length ex_heap \<and> ex_rank (full_path (ex_heap ! n)) < 30"
    by (simp add: ex_tree_def ex_heap_def ex_rank_def)
  note gone = expand_path_conditions [of ex_env3 ex_rank ex_tree "''/r/b''" ex_heap 30, OF ex_ranked3 b']
  from gone n' d' i' have "expand_path 30 ex_env3 ''/r/b'' (ex_heap, ex_tree) =
      (Raise (OSError (if isfile ex_env3 (full_path (ex_heap ! 1)) then NotADirectoryError
                       else FileNotFoundError)), (ex_heap, ex_tree))"
    by blast
  with f' have 4: "expand_path 30 ex_env3 ''/r/b'' (ex_heap, ex_tree) =
      (Raise (OSError FileNotFoundError), (ex_heap, ex_tree))"
    by simp
  from ex_ranked n d i 1 2 3 ex_ranked3 n' d' i' 4 show ?thesis by blast
qed

text \<open>
  Claim C6, as stated, fails. The claim says that \<^verbatim>\<open>expand_path\<close> succeeds whenever the
  node is in the index and is a directory node. In the example tree the node \<^verbatim>\<open>/r/b\<close>
  (address 1) is indexed and recorded as a directory; once the directory has been removed
  from the file system, \<^verbatim>\<open>expand_path\<close> on it raises the \<^verbatim>\<open>FileNotFoundError\<close> of
  \<^verbatim>\<open>os.listdir\<close>, which is neither of the two errors of the claim, and leaves the store as
  it was.
\<close>

theorem expand_path_listing_raises:
  "nodes ex_tree ''/r/b'' = Some 1 \<and> is_dir (ex_heap ! 1) \<and>
   fst (expand_path 30 ex_env3 ''/r/b'' (ex_heap, ex_tree)) = Raise (OSError FileNotFoundError) \<and>
   fst (expand_path 30 ex_env3 ''/r/b'' (ex_heap, ex_tree)) \<noteq> Return () \<and>
   fst (expand_path 30 ex_env3 ''/r/b'' (ex_heap, ex_tree)) \<noteq> Raise (not_found ''/r/b'') \<and>
   fst (expand_path 30 ex_env3 ''/r/b'' (ex_heap, ex_tree)) \<noteq> Raise (not_a_directory ''/r/b'') \<and>
   fst (snd (expand_path 30 ex_env3 ''/r/b'' (ex_heap, ex_tree))) = ex_heap"
  by code_simp

lemma child_paths_grows:
  assumes "grows r h h'" and "a < length h" and "a \<noteq> r" and "bounded h a"
  shows "child_paths h' a = child_paths h a"
proof -
  have "h' ! a = h ! a" using assms(1-3) by (rule grows_other)
  moreover have "full_path (h' ! c) = full_path (h ! c)" if "c \<in> set (children (h ! a))" for c
    using grows_fields(1) [OF assms(1)] assms(4) that by (simp add: bounded_def)
  ultimately show ?thesis by (simp add: child_paths_def)
qed

lemma bounded_grows:
  "grows r h h' \<Longrightarrow> a < length h \<Longrightarrow> a \<noteq> r \<Longrightarrow> bounded h a \<Longrightarrow> bounded h' a"
  using grows_other [of r h h' a] grows_length [of r h h']
  by (fastforce simp: bounded_def)

lemma filled_grows:
  assumes "grows r h h'" and "a < length h" and "a \<noteq> r" and "filled e h a"
  shows "filled e h' a"
proof -
  from assms(4) have b: "bounded h a" by (simp add: filled_def)
  have "h' ! a = h ! a" using assms(1-3) by (rule grows_other)
  with assms(4) child_paths_grows [OF assms(1-3) b] bounded_grows [OF assms(1-3) b]
  show ?thesis by (simp add: filled_def)
qed

lemma child_paths_attach:
  assumes "r < length (fst w)" and "bounded (fst w) r"
  shows "child_paths (fst (attach r p n w)) r = child_paths (fst w) r @ [full_path n]"
proof -
  let ?h2 = "fst (attach r p n w)"
  have g: "grows r (fst w) ?h2" using assms(1) by (rule grows_attach)
  have "full_path (?h2 ! c) = full_path (fst w ! c)" if "c \<in> set (children (fst w ! r))" for c
    using grows_fields(1) [OF g] assms(2) that by (simp add: bounded_def)
  then show ?thesis
    using assms(1) by (simp add: child_paths_def attach_at_root attach_at_new)
qed

lemma bounded_attach:
  assumes "r < length (fst w)" and "bounded (fst w) r"
  shows "bounded (fst (attach r p n w)) r"
  using assms by (auto simp: bounded_def attach_at_root less_Suc_eq)

lemma build_populates:
  "build_entries fuel e r d es w = (Return (), w') \<Longrightarrow> r < length (fst w) \<Longrightarrow> bounded (fst w) r \<Longrightarrow>
     child_paths (fst w') r =
       child_paths (fst w) r @
       map (path_join (full_path (fst w ! r)))
         (filter (\<lambda>x. \<not> skipped e (full_path (fst w ! r)) x) es) \<and>
     bounded (fst w') r \<and>
     (\<forall>a. length (fst w) \<le> a \<and> a < length (fst w') \<longrightarrow> filled e (fst w') a)"
  "build_subtree fuel e r d w = (Return (), w') \<Longrightarrow> r < length (fst w) \<Longrightarrow> bounded (fst w) r \<Longrightarrow>
     child_paths (fst w') r =
       child_paths (fst w) r @
       (if is_dir (fst w ! r) then listed_dirs e (full_path (fst w ! r)) else []) \<and>
     bounded (fst w') r \<and>
     (\<forall>a. length (fst w) \<le> a \<and> a < length (fst w') \<longrightarrow> filled e (fst w') a)"
proof (induction fuel e r d es w and fuel e r d w arbitrary: w' and w' rule: build_induct)
  case (Nil fuel e r d w)
  then show ?case by (auto simp: build_entries_Nil)
next
  case (Skip fuel e r d entry rest w)
  then show ?case by (simp add: build_entries_skip)
next
  case (Child fuel e r d entry rest w)
  let ?p = "path_join (full_path (fst w ! r)) entry"
  let ?c = "length (fst w)"
  let ?w2 = "attach r ?p (new_child e r d ?p) w"
  from Child.prems(1) Child.hyps obtain w3 where
    w3: "build_subtree fuel e ?c (max (d - 1) 0) ?w2 = (Return (), w3)"
    and rest: "build_entries fuel e r d rest w3 = (Return (), w')"
    by (auto simp: build_entries_child split: outcome.splits prod.splits)
  have r: "r < ?c" by (rule Child.prems(2))
  have g2: "grows r (fst w) (fst ?w2)" using r by (rule grows_attach)
  from build_grows(2) [OF w3] have g3: "grows ?c (fst ?w2) (fst w3)" by simp
  from grows_new [OF g2 g3 _ r] have g13: "grows r (fst w) (fst w3)" by simp
  have len3: "length (fst ?w2) \<le> length (fst w3)" using g3 by (rule grows_length)
  then have r3: "r < length (fst w3)" using r by simp
  from build_grows(1) [OF rest r3] have g4: "grows r (fst w3) (fst w')" by simp
  have len4: "length (fst w3) \<le> length (fst w')" using g4 by (rule grows_length)
  have isd: "isdir e ?p" using Child.hyps by (simp add: skipped_def)
  have c2: "fst ?w2 ! ?c = new_child e r d ?p" using r by (rule attach_at_new)
  have bc2: "bounded (fst ?w2) ?c" by (simp add: bounded_def c2)
  from Child.IH(1) [OF w3 _ bc2]
  have cp3c: "child_paths (fst w3) ?c = listed_dirs e ?p"
    and b3c: "bounded (fst w3) ?c"
    and new3: "\<forall>a. length (fst ?w2) \<le> a \<and> a < length (fst w3) \<longrightarrow> filled e (fst w3) a"
    by (simp_all add: c2 child_paths_def isd)
  have f3c: "filled e (fst w3) ?c"
    using cp3c b3c grows_fields(1,2) [OF g3, of ?c] by (simp add: filled_def c2 isd)
  have br2: "bounded (fst ?w2) r" using r Child.prems(3) by (rule bounded_attach)
  have rc: "r \<noteq> ?c" using r by simp
  have br3: "bounded (fst w3) r"
    using bounded_grows [OF g3 _ rc br2] r by simp
  have cp3r: "child_paths (fst w3) r = child_paths (fst w) r @ [?p]"
    using child_paths_grows [OF g3 _ rc br2] child_paths_attach [OF r Child.prems(3)] r by simp
  have p3: "full_path (fst w3 ! r) = full_path (fst w ! r)"
    using grows_fields(1) [OF g13 r] .
  from Child.IH(2) [OF w3 rest r3 br3]
  have cp': "child_paths (fst w') r = child_paths (fst w3) r @
               map (path_join (full_path (fst w ! r)))
                 (filter (\<lambda>x. \<not> skipped e (full_path (fst w ! r)) x) rest)"
    and b': "bounded (fst w') r"
    and new': "\<forall>a. length (fst w3) \<le> a \<and> a < length (fst w') \<longrightarrow> filled e (fst w') a"
    by (simp_all add: p3)
  have "filled e (fst w') a" if a: "?c \<le> a" "a < length (fst w')" for a
  proof (cases "a < length (fst w3)")
    case False
    with new' a show ?thesis by simp
  next
    case True
    have "filled e (fst w3) a"
    proof (cases "a = ?c")
      case True
      with f3c show ?thesis by simp
    next
      case False
      with a \<open>a < length (fst w3)\<close> new3 show ?thesis by simp
    qed
    moreover have "a \<noteq> r" using a r by simp
    ultimately show ?thesis using filled_grows [OF g4 True] by blast
  qed
  with cp' cp3r b' Child.hyps show ?case by simp
next
  case (Zero e r d w)
  then show ?case by (simp add: build_subtree.simps)
next
  case (Suc fuel e r d w)
  from Suc.prems(1) show ?case
  proof (cases rule: build_subtree_Return_cases)
    case Same
    then show ?thesis using Suc.prems(3) by (auto simp: listed_dirs_def)
  next
    case (Listed es)
    from Suc.IH [OF Listed(1,4,5) Suc.prems(2,3)] Listed(1,3)
    show ?thesis by (simp add: listed_dirs_def)
  qed
qed

text \<open>
  Claim C2, as the code has it. The claim says that \<^verbatim>\<open>expand_path\<close> on a childless
  directory node populates only the immediate children of that node. The call is
  \<^verbatim>\<open>_build_subtree\<close>, which descends into every directory it creates: what is
  populated is the whole subtree below the node. The frame part of the claim holds,
  whatever the outcome of the call: on an indexed, childless directory node \<open>n\<close> every
  node that existed before, other than \<open>n\<close>, is unchanged, and \<open>n\<close> changes only in its
  children, which are new nodes. When the path of \<open>n\<close> is still a directory of the file
  system the call returns, \<open>n\<close> has one child for each directory kept from the listing of
  its path, and every new node is a directory node that has in turn a child for each
  directory kept from its own listing. When the path is no longer a directory the call
  raises the error of \<^verbatim>\<open>os.listdir\<close> and the store is as it was.
\<close>

theorem expand_path_frame:
  assumes "ranked e rank" and "nodes t path = Some n" and "n < length h" and "is_dir (h ! n)"
    and "rank (full_path (h ! n)) < fuel" and "children (h ! n) = []"
  shows "\<exists>out h' t'. expand_path fuel e path (h, t) = (out, (h', t')) \<and>
           length h \<le> length h' \<and> root t' = root t \<and>
           (\<forall>a < length h. a \<noteq> n \<longrightarrow> h' ! a = h ! a) \<and>
           h' ! n = (h ! n) \<lparr> children := children (h' ! n) \<rparr> \<and>
           (\<forall>c \<in> set (children (h' ! n)). length h \<le> c \<and> c < length h') \<and>
           (isdir e (full_path (h ! n)) \<longrightarrow>
              out = Return () \<and>
              child_paths h' n = listed_dirs e (full_path (h ! n)) \<and>
              (\<forall>a. length h \<le> a \<and> a < length h' \<longrightarrow>
                   is_dir (h' ! a) \<and> child_paths h' a = listed_dirs e (full_path (h' ! a)))) \<and>
           (\<not> isdir e (full_path (h ! n)) \<longrightarrow>
              out = Raise (OSError (if isfile e (full_path (h ! n)) then NotADirectoryError
                                    else FileNotFoundError)) \<and>
              h' = h)"
proof -
  obtain out h' t' where w': "build_subtree fuel e n 1 (h, t) = (out, (h', t'))"
    by (cases "build_subtree fuel e n 1 (h, t)") auto
  have ex: "expand_path fuel e path (h, t) = (out, (h', t'))"
    using assms(2,4) w' by (simp add: expand_path_def)
  from build_grows(2) [OF w'] assms(3)
  have g: "grows n h h'" and rt: "root t' = root t" by simp_all
  from g obtain cs where cs: "h' ! n = (h ! n) \<lparr> children := children (h ! n) @ cs \<rparr>"
      "\<forall>c \<in> set cs. length h \<le> c \<and> c < length h'"
    unfolding grows_def by blast
  have 1: "h' ! n = (h ! n) \<lparr> children := children (h' ! n) \<rparr>" using cs(1) by simp
  have 2: "\<forall>c \<in> set (children (h' ! n)). length h \<le> c \<and> c < length h'"
    using cs assms(6) by simp
  have 3: "\<forall>a < length h. a \<noteq> n \<longrightarrow> h' ! a = h ! a" using g by (simp add: grows_def)
  have 4: "length h \<le> length h'" using g by (rule grows_length)
  have 5: "out = Return () \<and>
           child_paths h' n = listed_dirs e (full_path (h ! n)) \<and>
           (\<forall>a. length h \<le> a \<and> a < length h' \<longrightarrow>
                is_dir (h' ! a) \<and> child_paths h' a = listed_dirs e (full_path (h' ! a)))"
    if isd: "isdir e (full_path (h ! n))"
  proof -
    from build_returns(2) [of e rank n "(h, t)" fuel 1] assms(1,3,5) isd w'
    have out: "out = Return ()" by auto
    have b: "bounded (fst (h, t)) n" using assms(6) by (simp add: bounded_def)
    from w' out have w'': "build_subtree fuel e n 1 (h, t) = (Return (), (h', t'))" by simp
    from build_populates(2) [OF w'' _ b] assms(3,4,6)
    have cp: "child_paths h' n = listed_dirs e (full_path (h ! n))"
      and new: "\<forall>a. length h \<le> a \<and> a < length h' \<longrightarrow> filled e h' a"
      by (simp_all add: child_paths_def)
    from new have "\<forall>a. length h \<le> a \<and> a < length h' \<longrightarrow>
        is_dir (h' ! a) \<and> child_paths h' a = listed_dirs e (full_path (h' ! a))"
      by (simp add: filled_def)
    with out cp show ?thesis by simp
  qed
  have 6: "out = Raise (OSError (if isfile e (full_path (h ! n)) then NotADirectoryError
                                 else FileNotFoundError)) \<and> h' = h"
    if nd: "\<not> isdir e (full_path (h ! n))"
  proof -
    from assms(5) obtain k where k: "fuel = Suc k" by (cases fuel) auto
    from w' assms(4) nd show ?thesis
      unfolding k by (auto simp: build_subtree_Suc os_listdir_def except_PermissionError_eq)
  qed
  from ex 4 rt 3 1 2 5 6 show ?thesis by blast
qed

lemma ex_ranked2: "ranked ex_env2 ex_rank"
  by (auto simp: ranked_def listed_dirs_def ex_env2_def ex_env_def ex_rank_def skipped_def
                 path_join_def startswith_def endswith_def split: if_splits)

theorem expand_path_frame_witness:
  "ranked ex_env2 ex_rank \<and> nodes ex_tree ''/r/b'' = Some 1 \<and> is_dir (ex_heap ! 1) \<and>
   children (ex_heap ! 1) = [] \<and> isdir ex_env2 (full_path (ex_heap ! 1)) \<and>
   (\<exists>h' t'. expand_path 30 ex_env2 ''/r/b'' (ex_heap, ex_tree) = (Return (), (h', t')) \<and>
      h' ! 0 = ex_heap ! 0 \<and> h' ! 2 = ex_heap ! 2 \<and>
      child_paths h' 1 = listed_dirs ex_env2 ''/r/b'') \<and>
   ranked ex_env3 ex_rank \<and> \<not> isdir ex_env3 (full_path (ex_heap ! 1)) \<and>
   (\<exists>t'. expand_path 30 ex_env3 ''/r/b'' (ex_heap, ex_tree) =
            (Raise (OSError FileNotFoundError), (ex_heap, t')))"
proof -
  have n: "nodes ex_tree ''/r/b'' = Some 1" by (simp add: ex_tree_def)
  have l: "1 < length ex_heap" by (simp add: ex_heap_def)
  have d: "is_dir (ex_heap ! 1)" by (simp add: ex_heap_def)
  have k: "ex_rank (full_path (ex_heap ! 1)) < 30" by (simp add: ex_rank_def)
  have c: "children (ex_heap ! 1) = []" by (simp add: ex_heap_def)
  have p: "full_path (ex_heap ! 1) = ''/r/b''" by (simp add: ex_heap_def)
  have i: "isdir ex_env2 (full_path (ex_heap ! 1))"
    unfolding p by (simp add: ex_env2_def ex_env_def)
  from expand_path_frame [OF ex_ranked2 n l d k c] i obtain out h' t' where
    r: "expand_path 30 ex_env2 ''/r/b'' (ex_heap, ex_tree) = (out, (h', t'))"
      "\<forall>a < length ex_heap. a \<noteq> 1 \<longrightarrow> h' ! a = ex_heap ! a"
      "out = Return ()"
      "child_paths h' 1 = listed_dirs ex_env2 (full_path (ex_heap ! 1))"
    by blast
  from r(2) have "h' ! 0 = ex_heap ! 0" "h' ! 2 = ex_heap ! 2" by (simp_all add: ex_heap_def)
  with r(1,3,4) p have 1: "\<exists>h' t'. expand_path 30 ex_env2 ''/r/b'' (ex_heap, ex_tree) = (Return (), (h', t')) \<and>
      h' ! 0 = ex_heap ! 0 \<and> h' ! 2 = ex_heap ! 2 \<and>
      child_paths h' 1 = listed_dirs ex_env2 ''/r/b''"
    by auto
  have i': "\<not> isdir ex_env3 (full_path (ex_heap ! 1))"
    unfolding p by (simp add: ex_env3_def)
  have f': "\<not> isfile ex_env3 (full_path (ex_heap ! 1))"
    unfolding p by (simp add: ex_env3_def ex_env_def)
  from expand_path_frame [OF ex_ranked3 n l d k c] i' f'
  have 2: "\<exists>t'. expand_path 30 ex_env3 ''/r/b'' (ex_heap, ex_tree) =
            (Raise (OSError FileNotFoundError), (ex_heap, t'))"
    by auto
  from ex_ranked2 n d c i 1 ex_ranked3 i' 2 show ?thesis by blast
qed

text \<open>
  Claim C2, as stated, fails. In the example store the node \<^verbatim>\<open>/r/b\<close> (address 1) is a
  childless directory; once the directory is readable, \<^verbatim>\<open>expand_path\<close> on it creates
  two nodes: its child \<^verbatim>\<open>/r/b/x\<close> (address 5) and \<^verbatim>\<open>/r/b/x/y\<close> (address 6),
  which is a child of the new node 5 and not of the expanded node.
\<close>

theorem expand_path_builds_below_children:
  "children (ex_heap ! 1) = [] \<and>
   fst (expand_path 30 ex_env2 ''/r/b'' (ex_heap, ex_tree)) = Return () \<and>
   length (fst (snd (expand_path 30 ex_env2 ''/r/b'' (ex_heap, ex_tree)))) = 7 \<and>
   children (fst (snd (expand_path 30 ex_env2 ''/r/b'' (ex_heap, ex_tree))) ! 1) = [5] \<and>
   children (fst (snd (expand_path 30 ex_env2 ''/r/b'' (ex_heap, ex_tree))) ! 5) = [6] \<and>
   parent (fst (snd (expand_path 30 ex_env2 ''/r/b'' (ex_heap, ex_tree))) ! 6) = Some 5 \<and>
   full_path (fst (snd (expand_path 30 ex_env2 ''/r/b'' (ex_heap, ex_tree))) ! 6) = ''/r/b/x/y''"
  by code_simp

subsection \<open>Links and levels of the nodes that are built\<close>

lemma wf_linksI: "(\<And>a. a < length h \<Longrightarrow> links_ok h a) \<Longrightarrow> wf_links h"
  by (simp add: wf_links_def)

lemma wf_linksD: "wf_links h \<Longrightarrow> a < length h \<Longrightarrow> links_ok h a"
  by (simp add: wf_links_def)

lemma links_parent:
  "wf_links h \<Longrightarrow> a < length h \<Longrightarrow> parent (h ! a) = Some p \<Longrightarrow>
   p < a \<and> a \<in> set (children (h ! p))"
  by (auto dest!: wf_linksD simp: links_ok_def)

lemma links_child:
  "wf_links h \<Longrightarrow> a < length h \<Longrightarrow> c \<in> set (children (h ! a)) \<Longrightarrow>
   c < length h \<and> parent (h ! c) = Some a"
  by (auto dest!: wf_linksD simp: links_ok_def)

lemma links_bounded: "wf_links h \<Longrightarrow> a < length h \<Longrightarrow> bounded h a"
  by (auto simp: bounded_def dest: links_child)

lemma grows_children:
  assumes "grows r h h'" and "q < length h"
  shows "set (children (h ! q)) \<subseteq> set (children (h' ! q))"
proof (cases "q = r")
  case True
  from assms(1) obtain cs where "h' ! r = (h ! r) \<lparr> children := children (h ! r) @ cs \<rparr>"
    unfolding grows_def by blast
  with True show ?thesis by auto
next
  case False
  with assms have "h' ! q = h ! q" by (simp add: grows_other)
  then show ?thesis by simp
qed

lemma links_attach:
  assumes wf: "wf_links (fst w)" and r: "r < length (fst w)" and n: "parent n = Some r" "children n = []"
  shows "wf_links (fst (attach r p n w))"
proof (rule wf_linksI)
  let ?h = "fst w" and ?h2 = "fst (attach r p n w)"
  let ?c = "length ?h"
  fix a assume "a < length ?h2"
  then have a: "a < ?c \<or> a = ?c" by auto
  have g: "grows r ?h ?h2" using r by (rule grows_attach)
  have c2: "?h2 ! ?c = n" using r by (rule attach_at_new)
  have r2: "children (?h2 ! r) = children (?h ! r) @ [?c]" using r by (simp add: attach_at_root)
  show "links_ok ?h2 a"
  proof (cases "a = ?c")
    case True
    then show ?thesis using c2 n r r2 by (simp add: links_ok_def)
  next
    case False
    with a have al: "a < ?c" by simp
    have par: "parent (?h2 ! a) = parent (?h ! a)" using grows_fields(5) [OF g al] .
    have up: "p' < a \<and> a \<in> set (children (?h2 ! p'))" if "parent (?h ! a) = Some p'" for p'
    proof -
      from links_parent [OF wf al that] have "p' < a" "a \<in> set (children (?h ! p'))" by auto
      moreover from this(1) al have "p' < ?c" by simp
      ultimately show ?thesis using grows_children [OF g, of p'] by auto
    qed
    have dn: "c < length ?h2 \<and> parent (?h2 ! c) = Some a" if "c \<in> set (children (?h2 ! a))" for c
    proof (cases "c = ?c")
      case True
      with that have "a = r"
        using grows_other [OF g al] links_child [OF wf al, of c] by (cases "a = r") auto
      with True c2 n show ?thesis by simp
    next
      case False
      with that have "c \<in> set (children (?h ! a))"
        using grows_other [OF g al] r2 by (cases "a = r") auto
      from links_child [OF wf al this] grows_fields(5) [OF g, of c] show ?thesis by simp
    qed
    show ?thesis
      unfolding links_ok_def par using up dn by (auto split: option.splits)
  qed
qed

lemma build_links:
  "build_entries fuel e r d es w = (Return (), w') \<Longrightarrow> r < length (fst w) \<Longrightarrow> wf_links (fst w) \<Longrightarrow>
     wf_links (fst w')"
  "build_subtree fuel e r d w = (Return (), w') \<Longrightarrow> r < length (fst w) \<Longrightarrow> wf_links (fst w) \<Longrightarrow>
     wf_links (fst w')"
proof (induction fuel e r d es w and fuel e r d w arbitrary: w' and w' rule: build_induct)
  case (Nil fuel e r d w)
  then show ?case by (simp add: build_entries_Nil)
next
  case (Skip fuel e r d entry rest w)
  then show ?case by (simp add: build_entries_skip)
next
  case (Child fuel e r d entry rest w)
  let ?p = "path_join (full_path (fst w ! r)) entry"
  let ?c = "length (fst w)"
  let ?w2 = "attach r ?p (new_child e r d ?p) w"
  from Child.prems(1) Child.hyps obtain w3 where
    w3: "build_subtree fuel e ?c (max (d - 1) 0) ?w2 = (Return (), w3)"
    and rest: "build_entries fuel e r d rest w3 = (Return (), w')"
    by (auto simp: build_entries_child split: outcome.splits prod.splits)
  have wf2: "wf_links (fst ?w2)"
    using Child.prems(3,2) by (rule links_attach) simp_all
  from Child.IH(1) [OF w3 _ wf2] have wf3: "wf_links (fst w3)" by simp
  from build_grows(2) [OF w3] have "grows ?c (fst ?w2) (fst w3)" by simp
  then have "length (fst ?w2) \<le> length (fst w3)" by (rule grows_length)
  with Child.prems(2) have r3: "r < length (fst w3)" by simp
  from Child.IH(2) [OF w3 rest r3 wf3] show ?case .
next
  case (Zero e r d w)
  then show ?case by (simp add: build_subtree.simps)
next
  case (Suc fuel e r d w)
  from Suc.prems(1) show ?case
  proof (cases rule: build_subtree_Return_cases)
    case Same
    with Suc.prems(3) show ?thesis by simp
  next
    case (Listed es)
    from Suc.IH [OF Listed(1,4,5) Suc.prems(2,3)] show ?thesis .
  qed
qed

lemma at_level_grows:
  assumes "grows r h h'" and "wf_links h"
  shows "at_level h a k \<Longrightarrow> a < length h \<Longrightarrow> at_level h' a k"
proof (induction rule: at_level.induct)
  case (top a)
  then show ?case using grows_fields(5) [OF assms(1), of a] by (simp add: at_level.top)
next
  case (below a p k)
  from links_parent [OF assms(2) below.prems below.hyps(1)] below.prems
  have "p < length h" by simp
  with below.IH have "at_level h' p k" .
  moreover have "parent (h' ! a) = Some p"
    using grows_fields(5) [OF assms(1) below.prems] below.hyps(1) by simp
  ultimately show ?case by (rule at_level.below [rotated])
qed

lemma build_levels:
  "build_entries fuel e r d es w = (Return (), w') \<Longrightarrow> r < length (fst w) \<Longrightarrow> wf_links (fst w) \<Longrightarrow>
   at_level (fst w) r k \<Longrightarrow>
     (\<forall>a. length (fst w) \<le> a \<and> a < length (fst w') \<longrightarrow>
        (\<exists>j. at_level (fst w') a (Suc (k + j)) \<and> (expanded (fst w' ! a) \<longleftrightarrow> int (Suc j) \<le> d)))"
  "build_subtree fuel e r d w = (Return (), w') \<Longrightarrow> r < length (fst w) \<Longrightarrow> wf_links (fst w) \<Longrightarrow>
   at_level (fst w) r k \<Longrightarrow>
     (\<forall>a. length (fst w) \<le> a \<and> a < length (fst w') \<longrightarrow>
        (\<exists>j. at_level (fst w') a (Suc (k + j)) \<and> (expanded (fst w' ! a) \<longleftrightarrow> int (Suc j) \<le> d)))"
proof (induction fuel e r d es w and fuel e r d w arbitrary: w' k and w' k rule: build_induct)
  case (Nil fuel e r d w)
  then show ?case by (auto simp: build_entries_Nil)
next
  case (Skip fuel e r d entry rest w)
  then show ?case by (simp add: build_entries_skip)
next
  case (Child fuel e r d entry rest w)
  let ?p = "path_join (full_path (fst w ! r)) entry"
  let ?c = "length (fst w)"
  let ?w2 = "attach r ?p (new_child e r d ?p) w"
  from Child.prems(1) Child.hyps obtain w3 where
    w3: "build_subtree fuel e ?c (max (d - 1) 0) ?w2 = (Return (), w3)"
    and rest: "build_entries fuel e r d rest w3 = (Return (), w')"
    by (auto simp: build_entries_child split: outcome.splits prod.splits)
  have r: "r < ?c" by (rule Child.prems(2))
  have g2: "grows r (fst w) (fst ?w2)" using r by (rule grows_attach)
  from build_grows(2) [OF w3] have g3: "grows ?c (fst ?w2) (fst w3)" by simp
  have len3: "length (fst ?w2) \<le> length (fst w3)" using g3 by (rule grows_length)
  then have r3: "r < length (fst w3)" using r by simp
  from build_grows(1) [OF rest r3] have g4: "grows r (fst w3) (fst w')" by simp
  have wf2: "wf_links (fst ?w2)"
    using Child.prems(3,2) by (rule links_attach) simp_all
  from build_links(2) [OF w3 _ wf2] have wf3: "wf_links (fst w3)" by simp
  have c2: "fst ?w2 ! ?c = new_child e r d ?p" using r by (rule attach_at_new)
  have lr2: "at_level (fst ?w2) r k"
    using at_level_grows [OF g2 Child.prems(3) Child.prems(4) r] .
  have lc2: "at_level (fst ?w2) ?c (Suc k)"
    by (rule at_level.below [OF _ lr2]) (simp add: c2)
  have lc3: "at_level (fst w3) ?c (Suc k)"
    using at_level_grows [OF g3 wf2 lc2] by simp
  have lr3: "at_level (fst w3) r k"
    using at_level_grows [OF g3 wf2 lr2] r by simp
  have ec3: "expanded (fst w3 ! ?c) \<longleftrightarrow> d > 0"
    using grows_fields(3) [OF g3, of ?c] by (simp add: c2)
  from Child.IH(1) [OF w3 _ wf2 lc2]
  have new3: "\<forall>a. length (fst ?w2) \<le> a \<and> a < length (fst w3) \<longrightarrow>
        (\<exists>j. at_level (fst w3) a (Suc (Suc k + j)) \<and>
             (expanded (fst w3 ! a) \<longleftrightarrow> int (Suc j) \<le> max (d - 1) 0))"
    by simp
  from Child.IH(2) [OF w3 rest r3 wf3 lr3]
  have new': "\<forall>a. length (fst w3) \<le> a \<and> a < length (fst w') \<longrightarrow>
        (\<exists>j. at_level (fst w') a (Suc (k + j)) \<and> (expanded (fst w' ! a) \<longleftrightarrow> int (Suc j) \<le> d))" .
  have "\<exists>j. at_level (fst w') a (Suc (k + j)) \<and> (expanded (fst w' ! a) \<longleftrightarrow> int (Suc j) \<le> d)"
    if a: "?c \<le> a" "a < length (fst w')" for a
  proof (cases "a < length (fst w3)")
    case False
    with new' a show ?thesis by simp
  next
    case True
    have "\<exists>j. at_level (fst w3) a (Suc (k + j)) \<and> (expanded (fst w3 ! a) \<longleftrightarrow> int (Suc j) \<le> d)"
    proof (cases "a = ?c")
      case True
      with lc3 ec3 show ?thesis by (intro exI [of _ 0]) auto
    next
      case False
      with a True have "length (fst ?w2) \<le> a \<and> a < length (fst w3)" by simp
      with new3 obtain j where
        j: "at_level (fst w3) a (Suc (Suc k + j))"
           "expanded (fst w3 ! a) \<longleftrightarrow> int (Suc j) \<le> max (d - 1) 0"
        by blast
      have "int (Suc j) \<le> max (d - 1) 0 \<longleftrightarrow> int (Suc (Suc j)) \<le> d" by auto
      with j show ?thesis by (intro exI [of _ "Suc j"]) simp
    qed
    then obtain j where
      j: "at_level (fst w3) a (Suc (k + j))" "expanded (fst w3 ! a) \<longleftrightarrow> int (Suc j) \<le> d"
      by blast
    from at_level_grows [OF g4 wf3 j(1) True] grows_fields(3) [OF g4 True] j(2)
    show ?thesis by auto
  qed
  then show ?case by blast
next
  case (Zero e r d w)
  then show ?case by (simp add: build_subtree.simps)
next
  case (Suc fuel e r d w)
  from Suc.prems(1) show ?case
  proof (cases rule: build_subtree_Return_cases)
    case Same
    then show ?thesis by auto
  next
    case (Listed es)
    from Suc.IH [OF Listed(1,4,5) Suc.prems(2,3,4)] show ?thesis .
  qed
qed

subsection \<open>Building a tree to a depth\<close>

lemma at_level_unique: "at_level h a k \<Longrightarrow> at_level h a k' \<Longrightarrow> k = k'"
proof (induction arbitrary: k' rule: at_level.induct)
  case (top a)
  from top.prems top.hyps show ?case by (cases rule: at_level.cases) auto
next
  case (below a p k)
  from below.prems below.hyps(1) obtain j where "k' = Suc j" "at_level h p j"
    by (cases rule: at_level.cases) auto
  with below.IH show ?case by simp
qed

text \<open>
  Claim C1, as the code has it. The claim says that the nodes beyond the depth limit have
  no children populated. The depth does not limit the descent: \<^verbatim>\<open>_build_subtree\<close>
  calls itself on every directory it creates and the depth only decides the flag
  \<^verbatim>\<open>expanded\<close>. For a depth that is not negative, on a project whose directories form a
  finite tree, \<^verbatim>\<open>build_from_path\<close> returns; the root holds the canonical path; a node is
  expanded exactly when its level (0 for the root) is at most the depth, so depth 0
  expands the root only and depth 2 the root, its children and its grandchildren; and at
  every level the children of a directory node are the directories kept from the listing
  of its path.
\<close>

theorem build_from_path_levels:
  assumes "0 \<le> depth" and "ranked e rank" and "rank (canonical e path) < fuel"
  shows "\<exists>h t. FileTree_build_from_path fuel e path depth = Return (h, t) \<and>
           h \<noteq> [] \<and> root t = 0 \<and> full_path (h ! 0) = canonical e path \<and>
           (\<forall>a < length h.
              (\<exists>k. at_level h a k \<and> (expanded (h ! a) \<longleftrightarrow> int k \<le> depth)) \<and>
              child_paths h a =
                (if is_dir (h ! a) then listed_dirs e (full_path (h ! a)) else []))"
proof -
  let ?n = "(FileNode_build_from_path e (canonical e path)) \<lparr> expanded := True \<rparr>"
  let ?w = "([?n], \<lparr> root = 0, nodes = [path \<mapsto> 0] \<rparr>)"
  have r: "0 < length (fst ?w)" by simp
  have n0: "fst ?w ! 0 = ?n" by simp
  have rk: "rank (full_path (fst ?w ! 0)) < fuel"
    using assms(3) by (simp add: FileNode_build_from_path_def)
  have fresh: "is_dir (fst ?w ! 0) \<longrightarrow> isdir e (full_path (fst ?w ! 0))"
    by (simp add: FileNode_build_from_path_def)
  from build_returns(2) [OF assms(2) r fresh rk] obtain w' where
    w': "build_subtree fuel e 0 depth ?w = (Return (), w')" by blast
  have def: "FileTree_build_from_path fuel e path depth = Return w'"
    using w' by (simp add: FileTree_build_from_path_def Let_def)
  obtain h t where ht: "w' = (h, t)" by (cases w')
  from build_grows(2) [OF w' r] ht have g: "grows 0 [?n] h" and rt: "root t = 0" by simp_all
  from g have len: "1 \<le> length h" by (auto dest: grows_length)
  have wf0: "wf_links (fst ?w)"
    by (simp add: wf_links_def links_ok_def FileNode_build_from_path_def)
  have b0: "bounded (fst ?w) 0" by (simp add: bounded_def FileNode_build_from_path_def)
  have l0: "at_level (fst ?w) 0 0"
    by (rule at_level.top) (simp add: FileNode_build_from_path_def)
  have p0: "full_path (h ! 0) = canonical e path"
    using grows_fields(1) [OF g, of 0] by (simp add: FileNode_build_from_path_def)
  have d0: "is_dir (h ! 0) = is_dir ?n" using grows_fields(2) [OF g, of 0] by simp
  have e0: "expanded (h ! 0)" using grows_fields(3) [OF g, of 0] by simp
  from build_links(2) [OF w' r wf0] ht have wf: "wf_links h" by simp
  from at_level_grows [OF g _ _] wf0 l0 have lh0: "at_level h 0 0" by simp
  from build_populates(2) [OF w' r b0] ht
  have cp0: "child_paths h 0 = (if is_dir ?n then listed_dirs e (full_path ?n) else [])"
    and new: "\<forall>a. 1 \<le> a \<and> a < length h \<longrightarrow> filled e h a"
    by (simp_all add: child_paths_def FileNode_build_from_path_def)
  from build_levels(2) [OF w' r wf0 l0] ht
  have lv: "\<forall>a. 1 \<le> a \<and> a < length h \<longrightarrow>
      (\<exists>j. at_level h a (Suc j) \<and> (expanded (h ! a) \<longleftrightarrow> int (Suc j) \<le> depth))"
    by simp
  have "(\<exists>k. at_level h a k \<and> (expanded (h ! a) \<longleftrightarrow> int k \<le> depth)) \<and>
        child_paths h a = (if is_dir (h ! a) then listed_dirs e (full_path (h ! a)) else [])"
    if a: "a < length h" for a
  proof (cases "a = 0")
    case True
    have "full_path ?n = canonical e path" by (simp add: FileNode_build_from_path_def)
    with True lh0 e0 assms(1) cp0 d0 p0 show ?thesis by auto
  next
    case False
    with a have a1: "1 \<le> a \<and> a < length h" by simp
    with lv obtain j where "at_level h a (Suc j)" "expanded (h ! a) \<longleftrightarrow> int (Suc j) \<le> depth"
      by blast
    moreover from new a1 have "filled e h a" by blast
    ultimately show ?thesis by (auto simp: filled_def)
  qed
  moreover have "h \<noteq> []" using len by auto
  ultimately show ?thesis using def ht rt p0 by auto
qed

theorem build_from_path_levels_witness:
  "(0::int) \<le> 1 \<and> ranked ex_env ex_rank \<and> ex_rank (canonical ex_env ''/r'') < 30 \<and>
   (\<exists>h t. FileTree_build_from_path 30 ex_env ''/r'' 1 = Return (h, t) \<and>
      (\<exists>k. at_level h 0 k \<and> (expanded (h ! 0) \<longleftrightarrow> int k \<le> 1)) \<and>
      child_paths h 0 = (if is_dir (h ! 0) then listed_dirs ex_env (full_path (h ! 0)) else []))"
proof -
  have d: "(0::int) \<le> 1" by simp
  have k: "ex_rank (canonical ex_env ''/r'') < 30" by (simp add: ex_rank_def)
  from build_from_path_levels [OF d ex_ranked k] obtain h t where
    r: "FileTree_build_from_path 30 ex_env ''/r'' 1 = Return (h, t)" "h \<noteq> []"
       "\<forall>a < length h.
              (\<exists>k. at_level h a k \<and> (expanded (h ! a) \<longleftrightarrow> int k \<le> 1)) \<and>
              child_paths h a =
                (if is_dir (h ! a) then listed_dirs ex_env (full_path (h ! a)) else [])"
    by blast
  from r(2) have "0 < length h" by simp
  with r(3) have "(\<exists>k. at_level h 0 k \<and> (expanded (h ! 0) \<longleftrightarrow> int k \<le> 1)) \<and>
      child_paths h 0 = (if is_dir (h ! 0) then listed_dirs ex_env (full_path (h ! 0)) else [])"
    by blast
  with r(1) d ex_ranked k show ?thesis by blast
qed

text \<open>
  Claim C1, as stated, fails. With depth 0 on the example project the node \<^verbatim>\<open>/r/a\<close>
  (address 2, a child of the root) is beyond the depth limit and is not expanded, yet its
  child \<^verbatim>\<open>/r/a/c\<close> and the child of that child are in the tree.
\<close>

theorem build_from_path_descends_beyond_depth:
  "(case FileTree_build_from_path 10 ex_env ''/r'' 0 of
      Return (h, t) \<Rightarrow>
        parent (h ! 0) = None \<and> parent (h ! 2) = Some 0 \<and> full_path (h ! 2) = ''/r/a'' \<and>
        \<not> expanded (h ! 2) \<and> children (h ! 2) = [3] \<and>
        full_path (h ! 3) = ''/r/a/c'' \<and> children (h ! 3) = [4]
    | _ \<Rightarrow> False)"
  by code_simp

subsection \<open>Siblings and shown nodes\<close>

lemma wf_heap_links: "wf_heap h \<Longrightarrow> wf_links h"
  by (simp add: wf_heap_def)

lemma wf_heap_distinct: "wf_heap h \<Longrightarrow> a < length h \<Longrightarrow> distinct (child_paths h a)"
  by (simp add: wf_heap_def)

lemma ancestor_less: "ancestor h p a \<Longrightarrow> wf_links h \<Longrightarrow> a < length h \<Longrightarrow> p < a"
proof (induction rule: ancestor.induct)
  case (parent a p)
  then show ?case by (auto dest: links_parent)
next
  case (above a q p)
  from links_parent [OF above.prems(1,2) above.hyps(1)] have "q < a" by simp
  moreover from this above.prems have "q < length h" by simp
  ultimately show ?case using above.IH above.prems(1) by simp
qed

lemma ancestor_cases:
  "ancestor h p a \<Longrightarrow> parent (h ! a) = Some q \<Longrightarrow> p = q \<or> ancestor h p q"
  by (cases rule: ancestor.cases) auto

lemma shown_top: "parent (h ! a) = None \<Longrightarrow> shown h a"
  by (auto simp: shown_def elim: ancestor.cases)

lemma shown_child:
  assumes "parent (h ! a) = Some p"
  shows "shown h a \<longleftrightarrow> shown h p \<and> expanded (h ! p)"
proof
  assume s: "shown h a"
  have "ancestor h p a" using assms by (rule ancestor.parent)
  moreover have "ancestor h q a" if "ancestor h q p" for q
    using assms that by (rule ancestor.above)
  ultimately show "shown h p \<and> expanded (h ! p)" using s by (simp add: shown_def)
next
  assume s: "shown h p \<and> expanded (h ! p)"
  show "shown h a"
    unfolding shown_def
  proof (intro allI impI)
    fix q assume "ancestor h q a"
    from ancestor_cases [OF this assms] s show "expanded (h ! q)" by (auto simp: shown_def)
  qed
qed

lemma distinct_sorted_children:
  assumes "wf_heap h" and "p < length h"
  shows "distinct (sorted_by_path h False (children (h ! p)))"
proof -
  from wf_heap_distinct [OF assms] have "distinct (map (\<lambda>c. full_path (h ! c)) (children (h ! p)))"
    by (simp add: child_paths_def)
  then have "distinct (map (\<lambda>c. full_path (h ! c)) (sorted_by_path h False (children (h ! p))))"
    by (simp add: distinct_paths_sorted)
  then show ?thesis by (simp add: distinct_map)
qed

lemma sibling_spec:
  assumes wf: "wf_heap h" and a: "a < length h" and p: "parent (h ! a) = Some p"
    and ex: "expanded (h ! p)"
  shows "\<exists>i < length (children (h ! p)).
           sorted_by_path h False (children (h ! p)) ! i = a \<and>
           (\<forall>fuel.
              prev_sibling fuel h a =
                Return (if i = 0 then None
                        else Some (sorted_by_path h False (children (h ! p)) ! (i - 1))) \<and>
              next_sibling fuel h a =
                Return (if i = length (children (h ! p)) - 1 then None
                        else Some (sorted_by_path h False (children (h ! p)) ! (i + 1))))"
proof -
  let ?psc = "sorted_by_path h False (children (h ! p))"
  from links_parent [OF wf_heap_links [OF wf] a p] have pa: "p < a" and mem: "a \<in> set (children (h ! p))"
    by simp_all
  from pa a have pl: "p < length h" by simp
  have vc: "visible_children (h ! p) = children (h ! p)" using ex by (simp add: visible_children_def)
  have psc: "parent_sorted_children h a = Some ?psc"
    using p vc by (simp add: parent_sorted_children_def)
  from mem have "a \<in> set ?psc" by simp
  then obtain i where i: "i < length ?psc" "?psc ! i = a" unfolding in_set_conv_nth by blast
  from wf_heap_distinct [OF wf pl] have "distinct (map (\<lambda>c. full_path (h ! c)) ?psc)"
    by (simp add: child_paths_def distinct_paths_sorted)
  from list_index_distinct [OF this i(1)] i(2)
  have idx: "list_index fuel h ?psc a = Return i" for fuel by simp
  have ne: "?psc \<noteq> []"
  proof
    assume "?psc = []"
    then have "length ?psc = 0" by (simp only: list.size)
    with i(1) show False by simp
  qed
  have "prev_sibling fuel h a = Return (if i = 0 then None else Some (?psc ! (i - 1)))" for fuel
    by (simp add: prev_sibling_def psc ne idx)
  moreover have "next_sibling fuel h a =
      Return (if i = length (children (h ! p)) - 1 then None else Some (?psc ! (i + 1)))" for fuel
    by (simp add: next_sibling_def psc ne idx)
  ultimately show ?thesis using i by auto
qed

lemma sibling_top:
  "parent (h ! a) = None \<Longrightarrow>
   prev_sibling fuel h a = Return None \<and> next_sibling fuel h a = Return None"
  by (simp add: prev_sibling_def next_sibling_def parent_sorted_children_def)


lemma sibling_fuel:
  assumes "wf_heap h" and "a < length h" and "shown h a"
  shows "prev_sibling fuel h a = prev_sibling fuel' h a"
    and "next_sibling fuel h a = next_sibling fuel' h a"
proof -
  have "prev_sibling fuel h a = prev_sibling fuel' h a \<and>
        next_sibling fuel h a = next_sibling fuel' h a"
  proof (cases "parent (h ! a)")
    case None
    then show ?thesis by (simp add: sibling_top)
  next
    case (Some p)
    with assms(3) have "expanded (h ! p)" by (simp add: shown_child)
    from sibling_spec [OF assms(1,2) Some this] show ?thesis by auto
  qed
  then show "prev_sibling fuel h a = prev_sibling fuel' h a"
    and "next_sibling fuel h a = next_sibling fuel' h a" by simp_all
qed

lemma next_sibling_ok:
  assumes wf: "wf_heap h" and a: "a < length h" and sh: "shown h a"
  shows "\<exists>r. next_sibling fuel h a = Return r \<and>
           (\<forall>t. r = Some t \<longrightarrow>
                t < length h \<and> shown h t \<and> t \<noteq> a \<and> parent (h ! t) = parent (h ! a) \<and>
                prev_sibling fuel h t = Return (Some a)) \<and>
           (r = None \<longrightarrow>
              (\<forall>p. parent (h ! a) = Some p \<longrightarrow>
                 visible_children (h ! p) \<noteq> [] \<and>
                 last (sorted_by_path h False (visible_children (h ! p))) = a))"
proof (cases "parent (h ! a)")
  case None
  then show ?thesis by (simp add: sibling_top)
next
  case (Some p)
  let ?psc = "sorted_by_path h False (children (h ! p))"
  from sh Some have ex: "expanded (h ! p)" and shp: "shown h p" by (simp_all add: shown_child)
  from links_parent [OF wf_heap_links [OF wf] a Some] a have pl: "p < length h" by simp
  have vc: "visible_children (h ! p) = children (h ! p)" using ex by (simp add: visible_children_def)
  have dist: "distinct ?psc" using wf pl by (rule distinct_sorted_children)
  from sibling_spec [OF wf a Some ex] obtain i where
    i: "i < length (children (h ! p))" "?psc ! i = a"
    and nx: "next_sibling fuel h a =
      Return (if i = length (children (h ! p)) - 1 then None else Some (?psc ! (i + 1)))"
    by blast
  show ?thesis
  proof (cases "i = length (children (h ! p)) - 1")
    case True
    have "?psc \<noteq> []" using i(1) by (metis length_sorted_by_path list.size(3) not_less0)
    then have "last ?psc = ?psc ! (length ?psc - 1)" by (rule last_conv_nth)
    with True i(2) have "last ?psc = a" by simp
    moreover have "children (h ! p) \<noteq> []" using i(1) by auto
    ultimately show ?thesis using nx True Some vc by simp
  next
    case False
    let ?t = "?psc ! (i + 1)"
    from False i(1) have i1: "i + 1 < length ?psc" by simp
    then have "?t \<in> set ?psc" by (rule nth_mem)
    then have tm: "?t \<in> set (children (h ! p))" by simp
    from links_child [OF wf_heap_links [OF wf] pl tm]
    have tl: "?t < length h" and tp: "parent (h ! ?t) = Some p" by simp_all
    have sht: "shown h ?t" using tp shp ex by (simp add: shown_child)
    from sibling_spec [OF wf tl tp ex] obtain j where
      j: "j < length (children (h ! p))" "?psc ! j = ?t"
      and pv: "prev_sibling fuel h ?t = Return (if j = 0 then None else Some (?psc ! (j - 1)))"
      by blast
    from dist j i1 have "j = i + 1" by (simp add: nth_eq_iff_index_eq)
    with pv i(2) have "prev_sibling fuel h ?t = Return (Some a)" by simp
    moreover have "?t \<noteq> a"
      using nth_eq_iff_index_eq [OF dist i1, of i] i by auto
    ultimately show ?thesis using nx False tl tp sht Some by simp
  qed
qed

lemma prev_sibling_ok:
  assumes wf: "wf_heap h" and a: "a < length h" and sh: "shown h a"
  shows "\<exists>r. prev_sibling fuel h a = Return r \<and>
           (\<forall>t. r = Some t \<longrightarrow> t < length h \<and> shown h t)"
proof (cases "parent (h ! a)")
  case None
  then show ?thesis by (simp add: sibling_top)
next
  case (Some p)
  let ?psc = "sorted_by_path h False (children (h ! p))"
  from sh Some have ex: "expanded (h ! p)" and shp: "shown h p" by (simp_all add: shown_child)
  from links_parent [OF wf_heap_links [OF wf] a Some] a have pl: "p < length h" by simp
  from sibling_spec [OF wf a Some ex] obtain i where
    i: "i < length (children (h ! p))" "?psc ! i = a"
    and pv: "prev_sibling fuel h a = Return (if i = 0 then None else Some (?psc ! (i - 1)))"
    by blast
  show ?thesis
  proof (cases "i = 0")
    case True
    with pv show ?thesis by simp
  next
    case False
    let ?t = "?psc ! (i - 1)"
    from i(1) have "i - 1 < length ?psc" by simp
    then have "?t \<in> set ?psc" by (rule nth_mem)
    then have tm: "?t \<in> set (children (h ! p))" by simp
    from links_child [OF wf_heap_links [OF wf] pl tm]
    have tl: "?t < length h" and tp: "parent (h ! ?t) = Some p" by simp_all
    have "shown h ?t" using tp shp ex by (simp add: shown_child)
    with pv False tl show ?thesis by simp
  qed
qed

lemma last_shown_child:
  assumes wf: "wf_heap h" and q: "q < length h" and sh: "shown h q"
    and ne: "visible_children (h ! q) \<noteq> []" and x: "x \<in> set (visible_children (h ! q))"
  shows "q < x \<and> x < length h \<and> shown h x \<and> parent (h ! x) = Some q"
proof -
  from ne have ex: "expanded (h ! q)" and vc: "visible_children (h ! q) = children (h ! q)"
    by (auto simp: visible_children_def split: if_splits)
  from x vc have "x \<in> set (children (h ! q))" by simp
  from links_child [OF wf_heap_links [OF wf] q this]
  have xl: "x < length h" and xp: "parent (h ! x) = Some q" by simp_all
  from links_parent [OF wf_heap_links [OF wf] xl xp] have "q < x" by simp
  moreover have "shown h x" using xp sh ex by (simp add: shown_child)
  ultimately show ?thesis using xl xp by simp
qed

lemma bubble_down_ok:
  assumes wf: "wf_heap h"
  shows "q < length h \<Longrightarrow> shown h q \<Longrightarrow> length h \<le> fuel + q \<Longrightarrow>
         \<exists>c. bubble_down fuel h q = Return c \<and> c < length h \<and> shown h c \<and> last_below h q c"
proof (induction fuel arbitrary: q)
  case 0
  then show ?case by simp
next
  case (Suc n)
  show ?case
  proof (cases "visible_children (h ! q) = []")
    case True
    with Suc.prems show ?thesis by (auto intro: last_below.here)
  next
    case False
    let ?x = "last (sorted_by_path h False (visible_children (h ! q)))"
    have "sorted_by_path h False (visible_children (h ! q)) \<noteq> []"
      using False by (metis length_0_conv length_sorted_by_path)
    then have "?x \<in> set (sorted_by_path h False (visible_children (h ! q)))" by (rule last_in_set)
    then have "?x \<in> set (visible_children (h ! q))" by simp
    from last_shown_child [OF wf Suc.prems(1,2) False this]
    have x: "q < ?x" "?x < length h" "shown h ?x" by simp_all
    with Suc.prems(3) have "length h \<le> n + ?x" by simp
    from Suc.IH [OF x(2,3) this] obtain c where
      c: "bubble_down n h ?x = Return c" "c < length h" "shown h c" "last_below h ?x c"
      by blast
    from False c(4) have "last_below h q c" by (rule last_below.down)
    with False c show ?thesis by simp
  qed
qed

lemma last_below_unique: "last_below h c a \<Longrightarrow> last_below h c b \<Longrightarrow> a = b"
proof (induction rule: last_below.induct)
  case (here a)
  from here.prems here.hyps show ?case by (cases rule: last_below.cases) auto
next
  case (down c a)
  from down.prems down.hyps(1)
  have "last_below h (last (sorted_by_path h False (visible_children (h ! c)))) b"
    by (cases rule: last_below.cases) auto
  with down.IH show ?case by simp
qed

subsection \<open>The loops of the key bindings\<close>

lemma no_ancestor_top: "parent (h ! a) = None \<Longrightarrow> \<not> ancestor h c a"
  by (auto elim: ancestor.cases)

lemma bubble_up_spec:
  assumes wf: "wf_heap h"
  shows "a < length h \<Longrightarrow> shown h a \<Longrightarrow> a \<le> fuel \<Longrightarrow> last_below h a sel \<Longrightarrow>
         next_sibling fuel0 h a = Return nxt \<Longrightarrow>
         \<exists>r. bubble_up fuel h a nxt = Return r \<and>
           (\<forall>t. r = Some t \<longrightarrow>
              t < length h \<and> shown h t \<and>
              (\<exists>c. (c = a \<or> ancestor h c a) \<and> c < length h \<and> shown h c \<and>
                    last_below h c sel \<and> parent (h ! t) = parent (h ! c) \<and> t \<noteq> c \<and>
                    next_sibling fuel0 h c = Return (Some t) \<and>
                    prev_sibling fuel0 h t = Return (Some c))) \<and>
           (r = None \<longrightarrow> (\<forall>c. c = a \<or> ancestor h c a \<longrightarrow> next_sibling fuel0 h c = Return None))"
proof (induction fuel arbitrary: a nxt)
  case 0
  note prems = 0
  from next_sibling_ok [OF wf prems(1,2), of fuel0] prems(5)
  have some: "\<forall>t. nxt = Some t \<longrightarrow>
                t < length h \<and> shown h t \<and> t \<noteq> a \<and> parent (h ! t) = parent (h ! a) \<and>
                prev_sibling fuel0 h t = Return (Some a)"
    by auto
  show ?case
  proof (cases nxt)
    case (Some t)
    with some prems show ?thesis by auto
  next
    case None
    have "parent (h ! a) = None"
    proof (cases "parent (h ! a)")
      case (Some p)
      from links_parent [OF wf_heap_links [OF wf] prems(1) Some] prems(3) show ?thesis by simp
    qed simp
    with None prems(5) show ?thesis by (auto simp: no_ancestor_top)
  qed
next
  case (Suc n)
  note prems = Suc.prems
  from next_sibling_ok [OF wf prems(1,2), of fuel0] prems(5)
  have some: "\<forall>t. nxt = Some t \<longrightarrow>
                t < length h \<and> shown h t \<and> t \<noteq> a \<and> parent (h ! t) = parent (h ! a) \<and>
                prev_sibling fuel0 h t = Return (Some a)"
    and none: "nxt = None \<longrightarrow>
              (\<forall>p. parent (h ! a) = Some p \<longrightarrow>
                 visible_children (h ! p) \<noteq> [] \<and>
                 last (sorted_by_path h False (visible_children (h ! p))) = a)"
    by auto
  show ?case
  proof (cases nxt)
    case (Some t)
    with some prems show ?thesis by auto
  next
    case None
    show ?thesis
    proof (cases "parent (h ! a)")
      case nopar: None
      with None prems(5) show ?thesis by (auto simp: no_ancestor_top)
    next
      case (Some p)
      from links_parent [OF wf_heap_links [OF wf] prems(1) Some] prems(1,3)
      have pl: "p < length h" and pn: "p \<le> n" by simp_all
      from prems(2) Some have shp: "shown h p" by (simp add: shown_child)
      from none None Some have "visible_children (h ! p) \<noteq> []"
        and "last (sorted_by_path h False (visible_children (h ! p))) = a" by simp_all
      with prems(4) have lb: "last_below h p sel" by (auto intro: last_below.down)
      from next_sibling_ok [OF wf pl shp, of fuel0] obtain nxt' where
        nxt': "next_sibling fuel0 h p = Return nxt'" by blast
      then have nxt'': "next_sibling (Suc n) h p = Return nxt'"
        using sibling_fuel(2) [OF wf pl shp, of "Suc n" fuel0] by simp
      from Suc.IH [OF pl shp pn lb nxt'] obtain r where
        r: "bubble_up n h p nxt' = Return r"
        and rs: "\<forall>t. r = Some t \<longrightarrow>
              t < length h \<and> shown h t \<and>
              (\<exists>c. (c = p \<or> ancestor h c p) \<and> c < length h \<and> shown h c \<and>
                    last_below h c sel \<and> parent (h ! t) = parent (h ! c) \<and> t \<noteq> c \<and>
                    next_sibling fuel0 h c = Return (Some t) \<and>
                    prev_sibling fuel0 h t = Return (Some c))"
        and rn: "r = None \<longrightarrow> (\<forall>c. c = p \<or> ancestor h c p \<longrightarrow> next_sibling fuel0 h c = Return None)"
        by blast
      have run: "bubble_up (Suc n) h a nxt = Return r"
        using None Some nxt'' r by simp
      have up: "ancestor h c a" if "c = p \<or> ancestor h c p" for c
        using that Some by (auto intro: ancestor.parent ancestor.above)
      have dn: "c = p \<or> ancestor h c p" if "ancestor h c a" for c
        using ancestor_cases [OF that Some] .
      have "\<forall>t. r = Some t \<longrightarrow>
              t < length h \<and> shown h t \<and>
              (\<exists>c. (c = a \<or> ancestor h c a) \<and> c < length h \<and> shown h c \<and>
                    last_below h c sel \<and> parent (h ! t) = parent (h ! c) \<and> t \<noteq> c \<and>
                    next_sibling fuel0 h c = Return (Some t) \<and>
                    prev_sibling fuel0 h t = Return (Some c))"
        using rs up by blast
      moreover have "r = None \<longrightarrow>
          (\<forall>c. c = a \<or> ancestor h c a \<longrightarrow> next_sibling fuel0 h c = Return None)"
        using rn dn None prems(5) by blast
      ultimately show ?thesis using run by blast
    qed
  qed
qed

lemma update_fields:
  assumes "a < length h" and "parent n = parent (h ! a)" and "children n = children (h ! a)"
    and "full_path n = full_path (h ! a)"
  shows "parent (h [a := n] ! x) = parent (h ! x)"
    and "children (h [a := n] ! x) = children (h ! x)"
    and "full_path (h [a := n] ! x) = full_path (h ! x)"
  using assms by (cases "x = a"; simp)+

lemma update_wf:
  assumes "a < length h" and "parent n = parent (h ! a)" and "children n = children (h ! a)"
    and "full_path n = full_path (h ! a)"
  shows "wf_heap (h [a := n]) = wf_heap h"
  unfolding wf_heap_def wf_links_def links_ok_def child_paths_def
  by (simp add: update_fields [OF assms] cong: option.case_cong)

lemma update_ancestor:
  assumes "a < length h" and "parent n = parent (h ! a)" and "children n = children (h ! a)"
    and "full_path n = full_path (h ! a)"
  shows "ancestor (h [a := n]) p x = ancestor h p x"
proof
  assume "ancestor (h [a := n]) p x"
  then show "ancestor h p x"
    by (induction rule: ancestor.induct)
       (auto simp: update_fields(1) [OF assms] intro: ancestor.parent ancestor.above)
next
  assume "ancestor h p x"
  then show "ancestor (h [a := n]) p x"
    by (induction rule: ancestor.induct)
       (auto simp: update_fields(1) [OF assms, symmetric] intro: ancestor.parent ancestor.above)
qed

lemma set_selected_ok:
  assumes ok: "session_ok s"
    and f: "\<And>n. parent (f n) = parent n \<and> children (f n) = children n \<and> full_path (f n) = full_path n"
  shows "session_ok (set_selected f s) \<and> length (store (set_selected f s)) = length (store s)"
proof -
  let ?h = "store s" and ?a = "selected_node s"
  let ?n = "f (?h ! ?a)"
  from ok have wf: "wf_heap ?h" and a: "?a < length ?h" and sh: "shown ?h ?a"
    by (simp_all add: session_ok_def)
  have n: "parent ?n = parent (?h ! ?a)" "children ?n = children (?h ! ?a)"
      "full_path ?n = full_path (?h ! ?a)"
    using f by simp_all
  have st: "store (set_selected f s) = ?h [?a := ?n]" "selected_node (set_selected f s) = ?a"
    by (simp_all add: set_selected_def)
  have "wf_heap (?h [?a := ?n])" using update_wf [OF a n] wf by simp
  moreover have "shown (?h [?a := ?n]) ?a"
    unfolding shown_def
  proof (intro allI impI)
    fix p assume "ancestor (?h [?a := ?n]) p ?a"
    then have anc: "ancestor ?h p ?a" by (simp add: update_ancestor [OF a n])
    from ancestor_less [OF anc wf_heap_links [OF wf] a] have "p \<noteq> ?a" by simp
    with sh anc show "expanded (?h [?a := ?n] ! p)" by (simp add: shown_def)
  qed
  ultimately show ?thesis using a by (simp add: session_ok_def st)
qed

subsection \<open>Moving the selection\<close>

lemma cursor_down_up: "move_cursor_up (move_cursor_down s \<lparr> selected_node := a \<rparr>) = s \<lparr> selected_node := a \<rparr>"
  by (simp add: move_cursor_up_def move_cursor_down_def)

lemma store_cursor [simp]:
  "store (move_cursor_up s) = store s" "store (move_cursor_down s) = store s"
  "selected_node (move_cursor_up s) = selected_node s"
  "selected_node (move_cursor_down s) = selected_node s"
  by (simp_all add: move_cursor_up_def move_cursor_down_def)

lemma session_ok_select:
  "wf_heap (store s) \<Longrightarrow> a < length (store s) \<Longrightarrow> shown (store s) a \<Longrightarrow>
   session_ok (move_cursor_up (s \<lparr> selected_node := a \<rparr>)) \<and>
   session_ok (move_cursor_down (s \<lparr> selected_node := a \<rparr>))"
  by (simp add: session_ok_def)

lemma up_ok:
  assumes ok: "session_ok s" and fuel: "length (store s) \<le> fuel"
  shows "\<exists>s'. up fuel s = Return s' \<and> session_ok s' \<and> store s' = store s"
proof -
  let ?h = "store s" and ?a = "selected_node s"
  from ok have wf: "wf_heap ?h" and a: "?a < length ?h" and sh: "shown ?h ?a"
    by (simp_all add: session_ok_def)
  from prev_sibling_ok [OF wf a sh, of fuel] obtain r where
    r: "prev_sibling fuel ?h ?a = Return r" "\<forall>t. r = Some t \<longrightarrow> t < length ?h \<and> shown ?h t"
    by blast
  show ?thesis
  proof (cases r)
    case None
    show ?thesis
    proof (cases "parent (?h ! ?a)")
      case nopar: None
      with None r(1) ok show ?thesis by (simp add: up_def)
    next
      case (Some p)
      from links_parent [OF wf_heap_links [OF wf] a Some] a have "p < length ?h" by simp
      moreover from sh Some have "shown ?h p" by (simp add: shown_child)
      ultimately have "session_ok (move_cursor_up (s \<lparr> selected_node := p \<rparr>))"
        using wf session_ok_select by blast
      with None r(1) Some show ?thesis by (simp add: up_def)
    qed
  next
    case (Some t)
    with r(2) have t: "t < length ?h" "shown ?h t" by simp_all
    from fuel have "length ?h \<le> fuel + t" by simp
    from bubble_down_ok [OF wf t this] obtain c where
      c: "bubble_down fuel ?h t = Return c" "c < length ?h" "shown ?h c" by blast
    from wf c(2,3) have "session_ok (move_cursor_up (s \<lparr> selected_node := c \<rparr>))"
      using session_ok_select by blast
    with Some r(1) c(1) show ?thesis by (simp add: up_def)
  qed
qed

lemma hd_sorted_mem: "xs \<noteq> [] \<Longrightarrow> hd (sorted_by_path h b xs) \<in> set xs"
proof -
  assume "xs \<noteq> []"
  then have "sorted_by_path h b xs \<noteq> []" by (metis length_0_conv length_sorted_by_path)
  then have "hd (sorted_by_path h b xs) \<in> set (sorted_by_path h b xs)" by (rule hd_in_set)
  then show ?thesis by simp
qed

text \<open>What \<^verbatim>\<open>down\<close> does in a session that satisfies the invariant.\<close>

lemma down_spec:
  assumes ok: "session_ok s" and fuel: "length (store s) \<le> fuel"
  shows "\<exists>s1. down fuel s = Return s1 \<and> session_ok s1 \<and> store s1 = store s \<and>
           (if at_bottom fuel (store s) (selected_node s) then s1 = s
            else selected_node s1 \<noteq> selected_node s \<and> up fuel s1 = Return s)"
proof -
  let ?h = "store s" and ?a = "selected_node s"
  from ok have wf: "wf_heap ?h" and a: "?a < length ?h" and sh: "shown ?h ?a"
    by (simp_all add: session_ok_def)
  show ?thesis
  proof (cases "visible_children (?h ! ?a) = []")
    case False
    let ?psc = "sorted_by_path ?h False (visible_children (?h ! ?a))"
    let ?t = "hd ?psc"
    let ?s1 = "move_cursor_down (s \<lparr> selected_node := ?t \<rparr>)"
    from False have ex: "expanded (?h ! ?a)"
      and vc: "visible_children (?h ! ?a) = children (?h ! ?a)"
      by (auto simp: visible_children_def split: if_splits)
    have dn: "down fuel s = Return ?s1" using False by (simp add: down_def)
    from hd_sorted_mem [OF False] have "?t \<in> set (visible_children (?h ! ?a))" .
    from last_shown_child [OF wf a sh False this]
    have t: "?a < ?t" "?t < length ?h" "shown ?h ?t" "parent (?h ! ?t) = Some ?a" by simp_all
    have ok1: "session_ok ?s1" using wf t(2,3) session_ok_select by blast
    from sibling_spec [OF wf t(2) t(4) ex] obtain i where
      i: "i < length (children (?h ! ?a))" "sorted_by_path ?h False (children (?h ! ?a)) ! i = ?t"
      and pv: "prev_sibling fuel ?h ?t =
                 Return (if i = 0 then None
                         else Some (sorted_by_path ?h False (children (?h ! ?a)) ! (i - 1)))"
      by blast
    have ne: "sorted_by_path ?h False (children (?h ! ?a)) \<noteq> []"
      using i(1) by (metis length_sorted_by_path list.size(3) not_less0)
    have "sorted_by_path ?h False (children (?h ! ?a)) ! 0 = ?t"
      using ne by (simp add: vc hd_conv_nth)
    with i distinct_sorted_children [OF wf a] have "i = 0"
      by (metis length_sorted_by_path nth_eq_iff_index_eq length_greater_0_conv ne)
    with pv have "prev_sibling fuel ?h ?t = Return None" by simp
    then have "up fuel ?s1 = Return (move_cursor_up (?s1 \<lparr> selected_node := ?a \<rparr>))"
      using t(4) by (simp add: up_def)
    also have "move_cursor_up (?s1 \<lparr> selected_node := ?a \<rparr>) = s"
      by (simp add: move_cursor_up_def move_cursor_down_def)
    finally have "up fuel ?s1 = Return s" .
    moreover have "\<not> at_bottom fuel ?h ?a" using False by (simp add: at_bottom_def)
    moreover have "selected_node ?s1 \<noteq> ?a" using t(1) by simp
    ultimately show ?thesis using dn ok1 by simp
  next
    case True
    show ?thesis
    proof (cases "parent (?h ! ?a)")
      case None
      then have "at_bottom fuel ?h ?a"
        using True by (simp add: at_bottom_def sibling_top no_ancestor_top)
      moreover have "down fuel s = Return s" using True None by (simp add: down_def)
      ultimately show ?thesis using ok by simp
    next
      case (Some p)
      note par = Some
      from next_sibling_ok [OF wf a sh, of fuel] obtain nxt0 where
        nxt0: "next_sibling fuel ?h ?a = Return nxt0" by blast
      have lb: "last_below ?h ?a ?a" using True by (rule last_below.here)
      from a fuel have af: "?a \<le> fuel" by simp
      from bubble_up_spec [OF wf a sh af lb nxt0] obtain r where
        r: "bubble_up fuel ?h ?a nxt0 = Return r"
        and rs: "\<forall>t. r = Some t \<longrightarrow>
              t < length ?h \<and> shown ?h t \<and>
              (\<exists>c. (c = ?a \<or> ancestor ?h c ?a) \<and> c < length ?h \<and> shown ?h c \<and>
                    last_below ?h c ?a \<and> parent (?h ! t) = parent (?h ! c) \<and> t \<noteq> c \<and>
                    next_sibling fuel ?h c = Return (Some t) \<and>
                    prev_sibling fuel ?h t = Return (Some c))"
        and rn: "r = None \<longrightarrow>
              (\<forall>c. c = ?a \<or> ancestor ?h c ?a \<longrightarrow> next_sibling fuel ?h c = Return None)"
        by blast
      show ?thesis
      proof (cases r)
        case None
        with rn True have "at_bottom fuel ?h ?a" by (simp add: at_bottom_def)
        moreover have "down fuel s = Return s"
          using True par nxt0 r None by (simp add: down_def)
        ultimately show ?thesis using ok by simp
      next
        case (Some t)
        let ?s1 = "move_cursor_down (s \<lparr> selected_node := t \<rparr>)"
        from rs Some obtain c where
          t: "t < length ?h" "shown ?h t"
          and c: "c = ?a \<or> ancestor ?h c ?a" "c < length ?h" "shown ?h c" "last_below ?h c ?a"
            "parent (?h ! t) = parent (?h ! c)" "t \<noteq> c"
            "next_sibling fuel ?h c = Return (Some t)" "prev_sibling fuel ?h t = Return (Some c)"
          by blast
        have dn: "down fuel s = Return ?s1"
          using True par nxt0 r Some by (simp add: down_def)
        have ok1: "session_ok ?s1" using wf t session_ok_select by blast
        from fuel have "length ?h \<le> fuel + c" by simp
        from bubble_down_ok [OF wf c(2,3) this] obtain c' where
          c': "bubble_down fuel ?h c = Return c'" "last_below ?h c c'" by blast
        from last_below_unique [OF c'(2) c(4)] have "c' = ?a" .
        with c'(1) c(8) have "up fuel ?s1 = Return (move_cursor_up (?s1 \<lparr> selected_node := ?a \<rparr>))"
          by (simp add: up_def)
        also have "move_cursor_up (?s1 \<lparr> selected_node := ?a \<rparr>) = s"
          by (simp add: move_cursor_up_def move_cursor_down_def)
        finally have restored: "up fuel ?s1 = Return s" .
        have nb: "\<not> at_bottom fuel ?h ?a"
          using c(1,7) by (auto simp: at_bottom_def)
        have "t \<noteq> ?a"
        proof
          assume eq: "t = ?a"
          with c(6) have "c \<noteq> ?a" by simp
          with c(1) have anc: "ancestor ?h c ?a" by simp
          from eq c(5) par have cp: "parent (?h ! c) = Some p" by simp
          from links_parent [OF wf_heap_links [OF wf] c(2) cp] have "p < c" by simp
          moreover from ancestor_cases [OF anc par]
          have "c = p \<or> ancestor ?h c p" .
          moreover have "p < length ?h"
            using links_parent [OF wf_heap_links [OF wf] a par] a by simp
          ultimately show False
            using ancestor_less [OF _ wf_heap_links [OF wf], of c p] by auto
        qed
        then have "selected_node ?s1 \<noteq> ?a" by simp
        with dn ok1 restored nb show ?thesis by simp
      qed
    qed
  qed
qed


text \<open>
  Claim C3. In a session whose store is well formed and whose selected node is shown
  (the states a session reaches, by the invariant below), \<^verbatim>\<open>down\<close> returns. In the
  boundary case, where the selected node shows no children and neither it nor any of its
  ancestors has a next sibling, it leaves the session as it was; in every other case it
  selects another node and \<^verbatim>\<open>up\<close> then brings back the session that \<^verbatim>\<open>down\<close>
  started from, selection and cursor row. On a node without parent, \<^verbatim>\<open>up\<close> leaves the
  session as it was.
\<close>

theorem down_then_up:
  assumes "session_ok s" and "length (store s) \<le> fuel"
  shows "\<exists>s1. down fuel s = Return s1 \<and>
           (if at_bottom fuel (store s) (selected_node s) then s1 = s
            else selected_node s1 \<noteq> selected_node s \<and> up fuel s1 = Return s) \<and>
           (parent (store s ! selected_node s) = None \<longrightarrow> up fuel s = Return s)"
proof -
  from down_spec [OF assms] obtain s1 where
    d: "down fuel s = Return s1"
    and c: "if at_bottom fuel (store s) (selected_node s) then s1 = s
     else selected_node s1 \<noteq> selected_node s \<and> up fuel s1 = Return s"
    by blast
  have u: "parent (store s ! selected_node s) = None \<longrightarrow> up fuel s = Return s"
    by (simp add: up_def sibling_top)
  show ?thesis
  proof (intro exI conjI)
    show "down fuel s = Return s1" by (rule d)
    show "if at_bottom fuel (store s) (selected_node s) then s1 = s
          else selected_node s1 \<noteq> selected_node s \<and> up fuel s1 = Return s" by (rule c)
    show "parent (store s ! selected_node s) = None \<longrightarrow> up fuel s = Return s" by (rule u)
  qed
qed

lemma ex_heap_wf: "wf_heap ex_heap"
  by code_simp

lemma ex_heap_shown: "shown ex_heap 0" "shown ex_heap 2" "shown ex_heap 3" "shown ex_heap 1"
proof -
  show 0: "shown ex_heap 0" by (rule shown_top) (simp add: ex_heap_def)
  show 2: "shown ex_heap 2" using 0 shown_child [of ex_heap 2 0] by (simp add: ex_heap_def)
  show "shown ex_heap 3" using 2 shown_child [of ex_heap 3 2] by (simp add: ex_heap_def)
  show "shown ex_heap 1" using 0 shown_child [of ex_heap 1 0] by (simp add: ex_heap_def)
qed

lemma ex_session_ok: "session_ok ex_session"
  using ex_heap_wf ex_heap_shown(3) by (simp add: session_ok_def ex_session_def ex_heap_def)

theorem down_then_up_witness:
  "session_ok ex_session \<and> length (store ex_session) \<le> 5 \<and>
   (\<exists>s1. down 5 ex_session = Return s1 \<and> selected_node s1 = 1 \<and> up 5 s1 = Return ex_session)"
proof -
  have len: "length (store ex_session) \<le> 5" by (simp add: ex_session_def ex_heap_def)
  have ev: "(case down 5 ex_session of Return s1 \<Rightarrow> selected_node s1 = 1 | _ \<Rightarrow> False)"
    by code_simp
  from down_then_up [OF ex_session_ok len] obtain s1 where
    s1: "down 5 ex_session = Return s1"
      "if at_bottom 5 (store ex_session) (selected_node ex_session) then s1 = ex_session
       else selected_node s1 \<noteq> selected_node ex_session \<and> up 5 s1 = Return ex_session"
    by blast
  from ev s1(1) have sel: "selected_node s1 = 1" by simp
  have "s1 \<noteq> ex_session" using sel by (auto simp: ex_session_def)
  with s1(2) have "up 5 s1 = Return ex_session" by (auto split: if_splits)
  with s1(1) sel ex_session_ok len show ?thesis by blast
qed

lemma key_ok:
  assumes ok: "session_ok s" and fuel: "length (store s) \<le> fuel"
  shows "\<exists>s'. key_binding fuel k s = Return s' \<and> session_ok s' \<and>
              length (store s') = length (store s)"
proof (cases k)
  case Key_c_c
  with ok show ?thesis by (simp add: session_ok_def)
next
  case Key_c_s
  with ok show ?thesis by (simp add: session_ok_def)
next
  case Key_up
  with up_ok [OF ok fuel] show ?thesis by auto
next
  case Key_down
  with down_spec [OF ok fuel] show ?thesis by auto
next
  case Key_right
  with set_selected_ok [OF ok, of "\<lambda>n. n \<lparr> expanded := True \<rparr>"] show ?thesis by simp
next
  case Key_left
  with set_selected_ok [OF ok, of "\<lambda>n. n \<lparr> expanded := False \<rparr>"] show ?thesis by simp
next
  case Key_enter
  with set_selected_ok [OF ok, of "\<lambda>n. n \<lparr> is_package := \<not> is_package n \<rparr>"] show ?thesis by simp
qed

lemma press_ok:
  "session_ok s \<Longrightarrow> length (store s) \<le> fuel \<Longrightarrow>
   \<exists>s'. press fuel ks s = Return s' \<and> session_ok s' \<and> length (store s') = length (store s)"
proof (induction ks arbitrary: s)
  case Nil
  then show ?case by simp
next
  case (Cons k ks)
  from key_ok [OF Cons.prems, of k] obtain s1 where
    s1: "key_binding fuel k s = Return s1" "session_ok s1" "length (store s1) = length (store s)"
    by blast
  from Cons.IH [OF s1(2)] Cons.prems(2) s1(3) obtain s' where
    "press fuel ks s1 = Return s'" "session_ok s'" "length (store s') = length (store s1)"
    by auto
  with s1 show ?case by simp
qed

lemma path_join_inject:
  "\<not> startswith x ''/'' \<Longrightarrow> \<not> startswith y ''/'' \<Longrightarrow> path_join p x = path_join p y \<Longrightarrow> x = y"
  by (auto simp: path_join_def split: if_splits)

lemma distinct_listed_dirs:
  assumes "listing_ok e"
  shows "distinct (listed_dirs e p)"
proof (cases "listdir e p")
  case None
  then show ?thesis by (simp add: listed_dirs_def)
next
  case (Some es)
  with assms have d: "distinct es" and n: "\<forall>x \<in> set es. \<not> startswith x ''/''"
    unfolding listing_ok_def by blast+
  have "inj_on (path_join p) (set (filter (\<lambda>x. \<not> skipped e p x) es))"
    using n by (auto intro!: inj_onI dest: path_join_inject)
  with d Some show ?thesis by (simp add: listed_dirs_def distinct_map)
qed

lemma build_from_path_wf:
  assumes "ranked e rank" and "listing_ok e" and "rank (canonical e path) < fuel"
  shows "\<exists>h t. FileTree_build_from_path fuel e path depth = Return (h, t) \<and>
           h \<noteq> [] \<and> root t = 0 \<and> parent (h ! 0) = None \<and> expanded (h ! 0) \<and> wf_heap h"
proof -
  let ?n = "(FileNode_build_from_path e (canonical e path)) \<lparr> expanded := True \<rparr>"
  let ?w = "([?n], \<lparr> root = 0, nodes = [path \<mapsto> 0] \<rparr>)"
  have r: "0 < length (fst ?w)" by simp
  have rk: "rank (full_path (fst ?w ! 0)) < fuel"
    using assms(3) by (simp add: FileNode_build_from_path_def)
  have fresh: "is_dir (fst ?w ! 0) \<longrightarrow> isdir e (full_path (fst ?w ! 0))"
    by (simp add: FileNode_build_from_path_def)
  from build_returns(2) [OF assms(1) r fresh rk] obtain w' where
    w': "build_subtree fuel e 0 depth ?w = (Return (), w')" by blast
  have def: "FileTree_build_from_path fuel e path depth = Return w'"
    using w' by (simp add: FileTree_build_from_path_def Let_def)
  obtain h t where ht: "w' = (h, t)" by (cases w')
  from build_grows(2) [OF w' r] ht have g: "grows 0 [?n] h" and rt: "root t = 0" by simp_all
  from g have len: "1 \<le> length h" by (auto dest: grows_length)
  have wf0: "wf_links (fst ?w)"
    by (simp add: wf_links_def links_ok_def FileNode_build_from_path_def)
  have b0: "bounded (fst ?w) 0" by (simp add: bounded_def FileNode_build_from_path_def)
  have p0: "parent (h ! 0) = None"
    using grows_fields(5) [OF g, of 0] by (simp add: FileNode_build_from_path_def)
  have e0: "expanded (h ! 0)" using grows_fields(3) [OF g, of 0] by simp
  from build_links(2) [OF w' r wf0] ht have wf: "wf_links h" by simp
  from build_populates(2) [OF w' r b0] ht
  have cp0: "child_paths h 0 = (if is_dir ?n then listed_dirs e (full_path ?n) else [])"
    and new: "\<forall>a. 1 \<le> a \<and> a < length h \<longrightarrow> filled e h a"
    by (simp_all add: child_paths_def FileNode_build_from_path_def)
  have "distinct (child_paths h a)" if a: "a < length h" for a
  proof (cases "a = 0")
    case True
    with cp0 distinct_listed_dirs [OF assms(2)] show ?thesis by simp
  next
    case False
    with a new have "filled e h a" by simp
    with distinct_listed_dirs [OF assms(2)] show ?thesis by (simp add: filled_def)
  qed
  with wf have "wf_heap h" by (simp add: wf_heap_def)
  moreover have "h \<noteq> []" using len by auto
  ultimately show ?thesis using def ht rt p0 e0 by auto
qed

text \<open>
  Claim C10. On a project whose directories form a finite tree and whose listings name
  each entry once, the session starts with the root selected and expanded, and after
  every sequence of keys (each handled with fuel at least the size of the store) the
  handlers have returned and every strict ancestor of the selected node is expanded.
\<close>

theorem selection_stays_shown:
  assumes "ranked e rank" and "listing_ok e" and "rank (canonical e path) < fuel"
  shows "\<exists>s0. InteractivePackageTree_init fuel e path depth = Return s0 \<and>
           selected_node s0 = root (file_tree s0) \<and> expanded (store s0 ! selected_node s0) \<and>
           (\<forall>ks n. length (store s0) \<le> n \<longrightarrow>
              (\<exists>s. press n ks s0 = Return s \<and>
                   (\<forall>p. ancestor (store s) p (selected_node s) \<longrightarrow> expanded (store s ! p))))"
proof -
  from build_from_path_wf [OF assms, of depth] obtain h t where
    b: "FileTree_build_from_path fuel e path depth = Return (h, t)"
    and h: "h \<noteq> []" "root t = 0" "parent (h ! 0) = None" "expanded (h ! 0)" "wf_heap h"
    by blast
  let ?s0 = "\<lparr> store = h, exit_code = QUIT_NOSAVE, file_tree = t,
               selected_node = root t, cursor_point = (0, 1) \<rparr>"
  have init: "InteractivePackageTree_init fuel e path depth = Return ?s0"
    using b by (simp add: InteractivePackageTree_init_def)
  have ok: "session_ok ?s0"
    using h by (simp add: session_ok_def shown_top)
  have "\<exists>s. press n ks ?s0 = Return s \<and>
            (\<forall>p. ancestor (store s) p (selected_node s) \<longrightarrow> expanded (store s ! p))"
    if "length (store ?s0) \<le> n" for ks n
  proof -
    from press_ok [OF ok that, of ks] obtain s where
      "press n ks ?s0 = Return s" "session_ok s" by blast
    then show ?thesis by (auto simp: session_ok_def shown_def)
  qed
  with init h show ?thesis by auto
qed

lemma ex_listing_ok: "listing_ok ex_env"
  by (auto simp: listing_ok_def ex_env_def startswith_def split: if_splits)

theorem selection_stays_shown_witness:
  "ranked ex_env ex_rank \<and> listing_ok ex_env \<and> ex_rank (canonical ex_env ''/r'') < 30 \<and>
   (\<exists>s0. InteractivePackageTree_init 30 ex_env ''/r'' 1 = Return s0 \<and>
      (\<exists>s. press (length (store s0)) [Key_down, Key_down, Key_left, Key_up, Key_enter, Key_right] s0
              = Return s \<and>
           shown (store s) (selected_node s)))"
proof -
  have k: "ex_rank (canonical ex_env ''/r'') < 30" by (simp add: ex_rank_def)
  from selection_stays_shown [OF ex_ranked ex_listing_ok k, of 1] obtain s0 where
    s0: "InteractivePackageTree_init 30 ex_env ''/r'' 1 = Return s0"
      "\<forall>ks n. length (store s0) \<le> n \<longrightarrow>
              (\<exists>s. press n ks s0 = Return s \<and>
                   (\<forall>p. ancestor (store s) p (selected_node s) \<longrightarrow> expanded (store s ! p)))"
    by blast
  from s0(2) have
    "\<exists>s. press (length (store s0)) [Key_down, Key_down, Key_left, Key_up, Key_enter, Key_right] s0
              = Return s \<and> shown (store s) (selected_node s)"
    unfolding shown_def by blast
  with s0(1) ex_ranked ex_listing_ok k show ?thesis by blast
qed

subsection \<open>Traversal\<close>

lemma sort_key_permutation:
  assumes d: "distinct (map f xs)" and m: "mset ys = mset xs"
  shows "sort_key f ys = sort_key f xs"
proof -
  let ?A = "sort_key f xs" and ?B = "sort_key f ys"
  have "mset (map f ?A) = mset (map f ?B)" using m by simp
  moreover have "sorted (map f ?A)" "sorted (map f ?B)" by simp_all
  ultimately have eq: "map f ?B = map f ?A"
    by (metis properties_for_sort sorted_sort_id)
  from m have s: "set ys = set xs" by (metis set_mset_mset)
  from d have "inj_on f (set xs)" by (simp add: distinct_map)
  then have "inj_on f (set ?B \<union> set ?A)" using s by simp
  with eq show ?thesis by (rule map_inj_on)
qed

lemma pushed_reversed:
  assumes "distinct (map (\<lambda>c. full_path (h ! c)) xs)" and "mset cs = mset xs"
  shows "rev (sorted_by_path h True cs) = sort_key (\<lambda>c. full_path (h ! c)) xs"
proof -
  have "mset (rev cs) = mset xs" using assms(2) by simp
  from sort_key_permutation [OF assms(1) this] show ?thesis by (simp add: sorted_by_path_def)
qed

lemma strictly_ascending:
  assumes "distinct (map f xs)"
  shows "sorted_wrt (<) (map f (sort_key f xs))"
proof -
  have "mset (map f (sort_key f xs)) = mset (map f xs)" by simp
  then have "distinct (map f (sort_key f xs))"
    using assms by (metis distinct_count_atmost_1 set_mset_mset)
  then show ?thesis by (simp add: strict_sorted_iff)
qed

lemma distinct_kids:
  "wf_heap h \<Longrightarrow> a < length h \<Longrightarrow> distinct (map (\<lambda>c. full_path (h ! c)) (kids h v a))"
  using wf_heap_distinct [of h a]
  by (simp add: kids_def visible_children_def child_paths_def)

lemma kids_children: "set (kids h v a) \<subseteq> set (children (h ! a))"
  by (simp add: kids_def visible_children_def)

lemma set_ascending_kids [simp]: "set (ascending_kids h v a) = set (kids h v a)"
  by (simp add: ascending_kids_def)

lemma iterator_loop_step:
  assumes "wf_heap h" and "node < length h"
  shows "iterator_loop (Suc fuel) h v (node # stack) =
           (case iterator_loop fuel h v (ascending_kids h v node @ stack) of
              Return ys \<Rightarrow> Return (node # ys)
            | Raise x \<Rightarrow> Raise x
            | Timeout \<Rightarrow> Timeout)"
proof -
  have "rev (sorted_by_path h True (kids h v node)) = ascending_kids h v node"
    unfolding ascending_kids_def
    by (rule pushed_reversed [OF distinct_kids [OF assms]]) simp
  then have e: "extendleft stack (sorted_by_path h True (kids h v node)) = ascending_kids h v node @ stack"
    by (simp add: extendleft_def)
  show ?thesis
  proof (cases v)
    case True
    with e show ?thesis by (simp add: kids_def)
  next
    case False
    with e show ?thesis by (simp add: kids_def)
  qed
qed

lemma iterator_loop_preorder:
  assumes wf: "wf_heap h"
  shows "list_all2 (preorder h v) stack xss \<Longrightarrow> \<forall>a \<in> set stack. a < length h \<Longrightarrow>
         length (concat xss) \<le> fuel \<Longrightarrow> iterator_loop fuel h v stack = Return (concat xss)"
proof (induction fuel arbitrary: stack xss)
  case 0
  show ?case
  proof (cases stack)
    case Nil
    with "0.prems" show ?thesis by simp
  next
    case (Cons node rest)
    with "0.prems"(1) obtain xs xss' where x: "xss = xs # xss'" "preorder h v node xs"
      by (auto simp: list_all2_Cons1)
    from x(2) have "xs \<noteq> []" by (cases rule: preorder.cases) simp
    with x(1) "0.prems"(3) show ?thesis by simp
  qed
next
  case (Suc n)
  show ?case
  proof (cases stack)
    case Nil
    with Suc.prems show ?thesis by simp
  next
    case (Cons node rest)
    with Suc.prems(1) obtain xs xss' where
      x: "xss = xs # xss'" "preorder h v node xs" "list_all2 (preorder h v) rest xss'"
      by (auto simp: list_all2_Cons1)
    from x(2) obtain yss where
      y: "xs = node # concat yss" "list_all2 (preorder h v) (ascending_kids h v node) yss"
      by (cases rule: preorder.cases) simp
    from Suc.prems(2) Cons have nl: "node < length h" by simp
    have all: "list_all2 (preorder h v) (ascending_kids h v node @ rest) (yss @ xss')"
      using y(2) x(3) by (rule list_all2_appendI)
    have bound: "\<forall>a \<in> set (ascending_kids h v node @ rest). a < length h"
      using Suc.prems(2) Cons kids_children [of h v node]
        links_child [OF wf_heap_links [OF wf] nl]
      by auto
    have "length (concat (yss @ xss')) \<le> n" using Suc.prems(3) x(1) y(1) by simp
    from Suc.IH [OF all bound this]
    have "iterator_loop n h v (ascending_kids h v node @ rest) = Return (concat (yss @ xss'))" .
    then have "iterator_loop (Suc n) h v (node # rest) = Return (node # concat (yss @ xss'))"
      by (simp only: iterator_loop_step [OF wf nl] outcome.case)
    then show ?thesis
      using Cons x(1) y(1) by (simp del: iterator_loop.simps)
  qed
qed

lemma list_all2_exists:
  "\<forall>x \<in> set xs. \<exists>y. P x y \<Longrightarrow> \<exists>ys. list_all2 P xs ys"
proof (induction xs)
  case Nil
  then show ?case by simp
next
  case (Cons x xs)
  then obtain y ys where "P x y" "list_all2 P xs ys" by auto
  then have "list_all2 P (x # xs) (y # ys)" by simp
  then show ?case by blast
qed

lemma preorder_exists:
  assumes wf: "wf_heap h"
  shows "a < length h \<Longrightarrow> \<exists>xs. preorder h v a xs"
proof (induction "length h - a" arbitrary: a rule: less_induct)
  case less
  have "\<forall>c \<in> set (ascending_kids h v a). \<exists>xs. preorder h v c xs"
  proof
    fix c assume "c \<in> set (ascending_kids h v a)"
    then have "c \<in> set (children (h ! a))" using kids_children [of h v a] by auto
    from links_child [OF wf_heap_links [OF wf] less.prems this]
    have c: "c < length h" "parent (h ! c) = Some a" by simp_all
    from links_parent [OF wf_heap_links [OF wf] c] have "a < c" by simp
    with c(1) have "length h - c < length h - a" by simp
    from less.hyps [OF this c(1)] show "\<exists>xs. preorder h v c xs" .
  qed
  then obtain xss where "list_all2 (preorder h v) (ascending_kids h v a) xss"
    using list_all2_exists by blast
  then have "preorder h v a (a # concat xss)" by (rule preorder.node)
  then show ?case by blast
qed


lemma ancestor_step: "ancestor h c x \<Longrightarrow> parent (h ! c) = Some a \<Longrightarrow> ancestor h a x"
proof (induction rule: ancestor.induct)
  case (parent x c)
  then show ?case by (auto intro: ancestor.parent ancestor.above)
next
  case (above x q c)
  then show ?case by (auto intro: ancestor.above)
qed

lemma ancestor_linear:
  "ancestor h c x \<Longrightarrow> ancestor h c' x \<Longrightarrow> c = c' \<or> ancestor h c c' \<or> ancestor h c' c"
proof (induction rule: ancestor.induct)
  case (parent x c)
  from ancestor_cases [OF parent.prems parent.hyps] show ?case by auto
next
  case (above x q c)
  from ancestor_cases [OF above.prems above.hyps(1)] show ?case
  proof
    assume "c' = q"
    with above.hyps(2) show ?thesis by simp
  next
    assume "ancestor h c' q"
    then show ?thesis by (rule above.IH)
  qed
qed

lemma list_all2_rhs:
  "list_all2 P xs ys \<Longrightarrow> y \<in> set ys \<Longrightarrow> \<exists>x \<in> set xs. P x y"
  by (metis in_set_conv_nth list_all2_conv_all_nth)

lemma preorder_below:
  "preorder h v a xs \<Longrightarrow> wf_links h \<Longrightarrow> a < length h \<Longrightarrow>
   \<forall>x \<in> set xs. x < length h \<and> (x = a \<or> ancestor h a x)"
proof (induction rule: preorder.induct)
  case (node a xss)
  show ?case
  proof
    fix x assume "x \<in> set (a # concat xss)"
    then consider "x = a" | ys where "ys \<in> set xss" "x \<in> set ys" by auto
    then show "x < length h \<and> (x = a \<or> ancestor h a x)"
    proof cases
      case 1
      with node.prems show ?thesis by simp
    next
      case 2
      from list_all2_rhs [OF node.IH 2(1)] obtain c where
        c: "c \<in> set (ascending_kids h v a)"
        and ih: "wf_links h \<longrightarrow> c < length h \<longrightarrow>
                 (\<forall>x \<in> set ys. x < length h \<and> (x = c \<or> ancestor h c x))"
        by blast
      from c have "c \<in> set (children (h ! a))" using kids_children [of h v a] by auto
      from links_child [OF node.prems this] have cl: "c < length h" and cp: "parent (h ! c) = Some a"
        by simp_all
      from ih node.prems(1) cl 2(2) have "x < length h" "x = c \<or> ancestor h c x" by auto
      then show ?thesis using cp by (auto intro: ancestor.parent ancestor_step)
    qed
  qed
qed

lemma siblings_apart:
  assumes wf: "wf_links h" and c: "c < length h" "parent (h ! c) = Some a"
    and c': "c' < length h" "parent (h ! c') = Some a" and ne: "c \<noteq> c'"
    and x: "x = c \<or> ancestor h c x" and x': "x = c' \<or> ancestor h c' x"
  shows False
proof -
  from links_parent [OF wf c] have ac: "a < c" by simp
  from links_parent [OF wf c'] have ac': "a < c'" by simp
  from ac c(1) have al: "a < length h" by simp
  have no: "\<not> ancestor h d e" if "parent (h ! e) = Some a" "parent (h ! d) = Some a" "d < length h" for d e
  proof
    assume "ancestor h d e"
    from ancestor_cases [OF this that(1)] have "d = a \<or> ancestor h d a" .
    then have "d \<le> a" using ancestor_less [OF _ wf al, of d] by auto
    moreover from links_parent [OF wf that(3,2)] have "a < d" by simp
    ultimately show False by simp
  qed
  from x x' ne consider "x = c" "ancestor h c' c" | "x = c'" "ancestor h c c'"
    | "ancestor h c x" "ancestor h c' x" by auto
  then show False
  proof cases
    case 1
    with no [OF c(2) c'(2) c'(1)] show ?thesis by simp
  next
    case 2
    with no [OF c'(2) c(2) c(1)] show ?thesis by simp
  next
    case 3
    from ancestor_linear [OF 3] ne no [OF c(2) c'(2) c'(1)] no [OF c'(2) c(2) c(1)]
    show ?thesis by auto
  qed
qed

lemma distinct_concat_apart:
  "list_all2 (\<lambda>c ys. distinct ys \<and> set ys \<subseteq> D c) cs xss \<Longrightarrow> distinct cs \<Longrightarrow>
   (\<forall>c \<in> set cs. \<forall>c' \<in> set cs. c \<noteq> c' \<longrightarrow> D c \<inter> D c' = {}) \<Longrightarrow>
   distinct (concat xss) \<and> set (concat xss) \<subseteq> (\<Union>c \<in> set cs. D c)"
proof (induction rule: list_all2_induct)
  case Nil
  then show ?case by simp
next
  case (Cons c cs ys xss)
  from Cons.prems have d: "distinct cs" and nc: "c \<notin> set cs"
    and ap: "\<forall>c \<in> set cs. \<forall>c' \<in> set cs. c \<noteq> c' \<longrightarrow> D c \<inter> D c' = {}"
    and ap1: "\<forall>c' \<in> set cs. D c \<inter> D c' = {}"
    by auto
  from Cons.IH [OF d ap] have ih: "distinct (concat xss)" "set (concat xss) \<subseteq> (\<Union>c \<in> set cs. D c)"
    by simp_all
  from Cons.hyps(1) have ys: "distinct ys" "set ys \<subseteq> D c" by simp_all
  have "set ys \<inter> set (concat xss) = {}"
  proof (rule ccontr)
    assume "set ys \<inter> set (concat xss) \<noteq> {}"
    then obtain x where "x \<in> set ys" "x \<in> set (concat xss)" by blast
    with ys(2) ih(2) obtain c' where "c' \<in> set cs" "x \<in> D c" "x \<in> D c'" by blast
    with ap1 show False by blast
  qed
  with ys ih show ?case by auto
qed

lemma preorder_distinct:
  "preorder h v a xs \<Longrightarrow> wf_heap h \<Longrightarrow> a < length h \<Longrightarrow> distinct xs"
proof (induction rule: preorder.induct)
  case (node a xss)
  note wf = wf_heap_links [OF node.prems(1)]
  let ?cs = "ascending_kids h v a"
  let ?D = "\<lambda>c. {x. x = c \<or> ancestor h c x}"
  have kid: "c < length h \<and> parent (h ! c) = Some a" if "c \<in> set ?cs" for c
  proof -
    from that have "c \<in> set (children (h ! a))" using kids_children [of h v a] by auto
    from links_child [OF wf node.prems(2) this] show ?thesis .
  qed
  have len: "length ?cs = length xss" using node.IH by (rule list_all2_lengthD)
  have each: "distinct (xss ! i) \<and> set (xss ! i) \<subseteq> ?D (?cs ! i)" if i: "i < length ?cs" for i
  proof -
    from node.IH i have p: "preorder h v (?cs ! i) (xss ! i)"
      and ih: "wf_heap h \<longrightarrow> ?cs ! i < length h \<longrightarrow> distinct (xss ! i)"
      by (simp_all add: list_all2_conv_all_nth)
    from i have "?cs ! i \<in> set ?cs" by (rule nth_mem)
    from kid [OF this] have cl: "?cs ! i < length h" by simp
    from preorder_below [OF p wf cl] ih node.prems(1) cl show ?thesis by auto
  qed
  then have all: "list_all2 (\<lambda>c ys. distinct ys \<and> set ys \<subseteq> ?D c) ?cs xss"
    using len by (simp add: list_all2_conv_all_nth)
  have "distinct (kids h v a)"
    using distinct_kids [OF node.prems, of v] by (simp add: distinct_map)
  then have dcs: "distinct ?cs" by (simp add: ascending_kids_def)
  have apart: "\<forall>c \<in> set ?cs. \<forall>c' \<in> set ?cs. c \<noteq> c' \<longrightarrow> ?D c \<inter> ?D c' = {}"
  proof (intro ballI impI)
    fix c c' assume cc: "c \<in> set ?cs" "c' \<in> set ?cs" "c \<noteq> c'"
    show "?D c \<inter> ?D c' = {}"
    proof (rule ccontr)
      assume "?D c \<inter> ?D c' \<noteq> {}"
      then obtain x where "x = c \<or> ancestor h c x" "x = c' \<or> ancestor h c' x" by blast
      with siblings_apart [OF wf _ _ _ _ cc(3), of a x] kid [OF cc(1)] kid [OF cc(2)]
      show False by blast
    qed
  qed
  from distinct_concat_apart [OF all dcs apart]
  have dc: "distinct (concat xss)" and sub: "set (concat xss) \<subseteq> (\<Union>c \<in> set ?cs. ?D c)" by simp_all
  have "a \<notin> set (concat xss)"
  proof
    assume "a \<in> set (concat xss)"
    with sub obtain c where c: "c \<in> set ?cs" "a = c \<or> ancestor h c a" by blast
    from kid [OF c(1)] have cl: "c < length h" and cp: "parent (h ! c) = Some a" by simp_all
    from links_parent [OF wf cl cp] have "a < c" by simp
    moreover from c(2) have "c \<le> a" using ancestor_less [OF _ wf node.prems(2), of c] by auto
    ultimately show False by simp
  qed
  with dc show ?case by simp
qed

lemma preorder_length:
  assumes "preorder h v a xs" and "wf_heap h" and "a < length h"
  shows "length xs \<le> length h"
proof -
  from preorder_distinct [OF assms] have "length xs = card (set xs)"
    by (simp add: distinct_card)
  also from preorder_below [OF assms(1) wf_heap_links [OF assms(2)] assms(3)]
  have "set xs \<subseteq> {0..<length h}" by auto
  then have "card (set xs) \<le> card {0..<length h}" by (intro card_mono) simp_all
  finally show ?thesis by simp
qed

text \<open>
  Claim C4, as the code has it. The claim needs a store in which the parent links are
  right and no two children of a node share a path, as \<^verbatim>\<open>build_from_path\<close> leaves it.
  On such a store, in either mode (\<open>v\<close> is \<^verbatim>\<open>visible_only\<close>), the
  iterator run to its end returns the pre-order traversal from the root: each node once,
  before the traversals from its children, which follow one another in ascending order of
  path. Whatever the order \<open>cs\<close> in which the children of a node stand in its list, what
  the iterator pushes, \<^verbatim>\<open>sorted(..., reverse=True)\<close>, is the reverse of that ascending
  order, so that they are taken off in ascending order; and the order is strict. Fuel
  equal to the size of the store is enough.
\<close>

theorem traversal_preorder:
  assumes "wf_heap h" and "root t < length h"
  shows "\<exists>xs. preorder h v (root t) xs \<and> distinct xs \<and>
           (\<forall>fuel. length h \<le> fuel \<longrightarrow> file_tree_iterator fuel h t v = Return xs) \<and>
           (\<forall>a < length h. \<forall>cs. mset cs = mset (kids h v a) \<longrightarrow>
               rev (sorted_by_path h True cs) = ascending_kids h v a \<and>
               sorted_wrt (<) (map (\<lambda>c. full_path (h ! c)) (ascending_kids h v a)))"
proof -
  from preorder_exists [OF assms] obtain xs where xs: "preorder h v (root t) xs" by blast
  have d: "distinct xs" using xs assms by (rule preorder_distinct)
  have "file_tree_iterator fuel h t v = Return xs" if "length h \<le> fuel" for fuel
  proof -
    have "list_all2 (preorder h v) [root t] [xs]" using xs by simp
    moreover have "\<forall>a \<in> set [root t]. a < length h" using assms(2) by simp
    moreover have "length (concat [xs]) \<le> fuel"
      using preorder_length [OF xs assms] that by simp
    ultimately have "iterator_loop fuel h v [root t] = Return (concat [xs])"
      by (rule iterator_loop_preorder [OF assms(1)])
    then show ?thesis by (simp add: file_tree_iterator_def)
  qed
  moreover have "rev (sorted_by_path h True cs) = ascending_kids h v a \<and>
      sorted_wrt (<) (map (\<lambda>c. full_path (h ! c)) (ascending_kids h v a))"
    if "a < length h" "mset cs = mset (kids h v a)" for a cs
    unfolding ascending_kids_def
    using pushed_reversed [OF distinct_kids [OF assms(1) that(1)] that(2)]
      strictly_ascending [OF distinct_kids [OF assms(1) that(1)]]
    by simp
  ultimately show ?thesis using xs d by blast
qed

theorem traversal_preorder_witness:
  "wf_heap ex_heap \<and> root ex_tree < length ex_heap \<and>
   preorder ex_heap True (root ex_tree) [0, 2, 3, 1] \<and>
   file_tree_iterator 5 ex_heap ex_tree True = Return [0, 2, 3, 1] \<and>
   preorder ex_heap False (root ex_tree) [0, 2, 3, 4, 1] \<and>
   file_tree_iterator 5 ex_heap ex_tree False = Return [0, 2, 3, 4, 1]"
proof -
  have r: "root ex_tree < length ex_heap" by (simp add: ex_tree_def ex_heap_def)
  have l: "length ex_heap \<le> 5" by (simp add: ex_heap_def)
  have e1: "file_tree_iterator 5 ex_heap ex_tree True = Return [0, 2, 3, 1]" by code_simp
  have e2: "file_tree_iterator 5 ex_heap ex_tree False = Return [0, 2, 3, 4, 1]" by code_simp
  from traversal_preorder [OF ex_heap_wf r, of True] l e1
  have "preorder ex_heap True (root ex_tree) [0, 2, 3, 1]" by auto
  moreover from traversal_preorder [OF ex_heap_wf r, of False] l e2
  have "preorder ex_heap False (root ex_tree) [0, 2, 3, 4, 1]" by auto
  ultimately show ?thesis using ex_heap_wf r e1 e2 by simp
qed

text \<open>
  Claim C4, as stated, fails. The claim is for every tree. \<^verbatim>\<open>expand_path\<close> on a node
  that has children already appends a new child for each directory of the listing: in the
  example tree, after \<^verbatim>\<open>expand_path("/r/a")\<close> the node \<^verbatim>\<open>/r/a\<close> (address 2) has the
  children 3 and 5, both with the path \<^verbatim>\<open>/r/a/c\<close>. The full traversal visits node 5
  and then node 3: the order of the paths is not strict, and it depends on the order of the
  children list, since \<^verbatim>\<open>sorted\<close> keeps nodes with equal paths in the order in
  which it finds them: from the list \<open>[3, 5]\<close> the nodes are taken off as \<open>[5, 3]\<close>,
  from the list \<open>[5, 3]\<close> as \<open>[3, 5]\<close>.
\<close>

theorem traversal_of_repeated_paths:
  "fst (expand_path 30 ex_env ''/r/a'' (ex_heap, ex_tree)) = Return () \<and>
   fst (snd (expand_path 30 ex_env ''/r/a'' (ex_heap, ex_tree))) = ex_heap_again \<and>
   root (snd (snd (expand_path 30 ex_env ''/r/a'' (ex_heap, ex_tree)))) = 0 \<and>
   children (ex_heap_again ! 2) = [3, 5] \<and>
   full_path (ex_heap_again ! 3) = full_path (ex_heap_again ! 5) \<and>
   \<not> wf_heap ex_heap_again \<and>
   file_tree_iterator 7 ex_heap_again
     (snd (snd (expand_path 30 ex_env ''/r/a'' (ex_heap, ex_tree)))) False
     = Return [0, 2, 5, 6, 3, 4, 1] \<and>
   \<not> sorted_wrt (<) (map (\<lambda>c. full_path (ex_heap_again ! c)) [5, 3]) \<and>
   rev (sorted_by_path ex_heap_again True [3, 5]) = [5, 3] \<and>
   rev (sorted_by_path ex_heap_again True [5, 3]) = [3, 5]"
  by code_simp

subsection \<open>The result of a session\<close>

lemma key_file_tree:
  "key_binding fuel k s = Return s' \<Longrightarrow> file_tree s' = file_tree s"
  by (cases k)
     (auto simp: up_def down_def set_selected_def move_cursor_up_def move_cursor_down_def
           split: outcome.splits option.splits if_splits)

lemma press_file_tree:
  "press fuel ks s = Return s' \<Longrightarrow> file_tree s' = file_tree s"
proof (induction ks arbitrary: s)
  case Nil
  then show ?case by simp
next
  case (Cons k ks)
  then show ?case by (auto split: outcome.splits dest: key_file_tree)
qed

lemma app_run_exit:
  "Key_c_c \<notin> set ks \<Longrightarrow> Key_c_s \<notin> set ks \<Longrightarrow> press fuel ks s = Return s' \<Longrightarrow>
   k = Key_c_c \<or> k = Key_c_s \<Longrightarrow>
   app_run fuel (ks @ k # rest) s = key_binding fuel k s'"
proof (induction ks arbitrary: s)
  case Nil
  then show ?case by auto
next
  case (Cons k' ks)
  then show ?case by (auto split: outcome.splits)
qed

lemma file_tree_iterator_returns:
  assumes "wf_heap h" and "root t < length h" and "length h \<le> fuel"
  shows "\<exists>xs. preorder h v (root t) xs \<and> file_tree_iterator fuel h t v = Return xs"
proof -
  from preorder_exists [OF assms(1,2)] obtain xs where xs: "preorder h v (root t) xs" by blast
  have "list_all2 (preorder h v) [root t] [xs]" using xs by simp
  moreover have "\<forall>a \<in> set [root t]. a < length h" using assms(2) by simp
  moreover have "length (concat [xs]) \<le> fuel"
    using preorder_length [OF xs assms(1,2)] assms(3) by simp
  ultimately have "iterator_loop fuel h v [root t] = Return (concat [xs])"
    by (rule iterator_loop_preorder [OF assms(1)])
  with xs show ?thesis by (auto simp: file_tree_iterator_def)
qed

text \<open>
  Claim C5. Let the keys \<open>ks\<close>, none of them an exit key, lead the session to the
  state \<open>s'\<close>. When the next key is the save key, \<^verbatim>\<open>run\<close> returns the list of
  \<^verbatim>\<open>SelectedPackage\<close> records of the nodes marked as packages in \<open>s'\<close>, in the order
  of the full pre-order traversal from the root (the flag \<^verbatim>\<open>expanded\<close> plays no part
  in it); when it is the discard key, \<^verbatim>\<open>run\<close> returns nothing, whatever is marked. The
  keys after the exit key are not read.
\<close>

theorem run_collects_packages:
  assumes "session_ok s" and "root (file_tree s) < length (store s)"
    and "length (store s) \<le> fuel" and "Key_c_c \<notin> set ks" and "Key_c_s \<notin> set ks"
  shows "\<exists>s' xs. press fuel ks s = Return s' \<and>
           preorder (store s') False (root (file_tree s')) xs \<and>
           run fuel (ks @ Key_c_s # rest) s =
             Return (Some (map (\<lambda>node. SelectedPackage (full_path (store s' ! node)))
                             (filter (\<lambda>node. is_package (store s' ! node)) xs))) \<and>
           run fuel (ks @ Key_c_c # rest) s = Return None"
proof -
  from press_ok [OF assms(1,3), of ks] obtain s' where
    s': "press fuel ks s = Return s'" "session_ok s'" "length (store s') = length (store s)"
    by blast
  from press_file_tree [OF s'(1)] have ft: "file_tree s' = file_tree s" .
  have save: "app_run fuel (ks @ Key_c_s # rest) s = Return (s' \<lparr> exit_code := QUIT_SAVE \<rparr>)"
    using app_run_exit [OF assms(4,5) s'(1), of Key_c_s rest] by simp
  have quit: "app_run fuel (ks @ Key_c_c # rest) s = Return (s' \<lparr> exit_code := QUIT_NOSAVE \<rparr>)"
    using app_run_exit [OF assms(4,5) s'(1), of Key_c_c rest] by simp
  from s'(2) have wf: "wf_heap (store s')" by (simp add: session_ok_def)
  have r: "root (file_tree s') < length (store s')" using assms(2) ft s'(3) by simp
  have l: "length (store s') \<le> fuel" using assms(3) s'(3) by simp
  from file_tree_iterator_returns [OF wf r l, of False] obtain xs where
    xs: "preorder (store s') False (root (file_tree s')) xs"
      "file_tree_iterator fuel (store s') (file_tree s') False = Return xs"
    by blast
  have "run fuel (ks @ Key_c_s # rest) s =
          Return (Some (map (\<lambda>node. SelectedPackage (full_path (store s' ! node)))
                          (filter (\<lambda>node. is_package (store s' ! node)) xs)))"
    using xs(2) by (simp add: run_def save)
  moreover have "run fuel (ks @ Key_c_c # rest) s = Return None"
    by (simp add: run_def quit)
  ultimately show ?thesis using s'(1) xs(1) by blast
qed

theorem run_collects_packages_witness:
  "session_ok ex_session \<and> root (file_tree ex_session) < length (store ex_session) \<and>
   length (store ex_session) \<le> 5 \<and>
   run 5 ([Key_enter] @ Key_c_s # []) ex_session =
     Return (Some [SelectedPackage ''/r/a'', SelectedPackage ''/r/a/c'']) \<and>
   run 5 ([Key_enter] @ Key_c_c # []) ex_session = Return None"
proof -
  have r: "root (file_tree ex_session) < length (store ex_session)"
    by (simp add: ex_session_def ex_tree_def ex_heap_def)
  have l: "length (store ex_session) \<le> 5" by (simp add: ex_session_def ex_heap_def)
  have k: "Key_c_c \<notin> set [Key_enter]" "Key_c_s \<notin> set [Key_enter]" by simp_all
  have e: "run 5 ([Key_enter] @ Key_c_s # []) ex_session =
     Return (Some [SelectedPackage ''/r/a'', SelectedPackage ''/r/a/c''])"
    by code_simp
  from run_collects_packages [OF ex_session_ok r l k, of "[]"]
  have "run 5 ([Key_enter] @ Key_c_c # []) ex_session = Return None" by blast
  with ex_session_ok r l e show ?thesis by simp
qed

end
